theory Spec2Isabelle
  imports Main "HOL-Library.Word"
begin

section \<open>The buffer cache of kernel/bio.c\<close>

text \<open>
  A shallow embedding of \<^verbatim>\<open>kernel/bio.c\<close>: the cache is a record of the fields of
  \<^verbatim>\<open>struct bcache\<close>, a \<^verbatim>\<open>struct buf *\<close> is a value of \<open>bufptr\<close>, and every
  function of the file takes the cache and returns an outcome carrying the cache it
  leaves behind. The calling process (\<^verbatim>\<open>myproc()\<close> in the kernel) is an explicit
  argument. One call runs from its start to its return, its panic or the point where it
  goes to sleep; the spinlock \<^verbatim>\<open>bcache.lock\<close>, which only serialises the critical
  sections of concurrent calls, is therefore left out.
\<close>

subsection \<open>Data\<close>

type_synonym uint = "32 word"
type_synonym cint = "32 word"
type_synonym pid = nat
type_synonym block = "8 word list"

text \<open>A \<^verbatim>\<open>struct buf *\<close>: \<^verbatim>\<open>NULL\<close>, \<^verbatim>\<open>&bcache.head\<close> or \<^verbatim>\<open>&bcache.buf[i]\<close>.\<close>

datatype bufptr = Null | Head | Buf nat

text \<open>
  \<^verbatim>\<open>struct buf\<close> is declared in \<^verbatim>\<open>buf.h\<close>, which is not among the sources; the fields
  are the ones \<^verbatim>\<open>bio.c\<close> reads and writes, with the types of their uses in
  \<^verbatim>\<open>bio.c\<close> (\<^verbatim>\<open>uint dev, uint blockno\<close> are the parameters of \<^verbatim>\<open>bget\<close>; the
  reference count is an unsigned counter, as in xv6). The sleep-lock is the holder's
  process id, if any.
\<close>

record buf =
  valid :: cint
  dev :: uint
  blockno :: uint
  lock :: "pid option"
  refcnt :: uint
  prev :: bufptr
  "next" :: bufptr
  data :: block

text \<open>One transfer of the device: the direction and the block.\<close>

datatype io = Disk_read uint uint | Disk_write uint uint

text \<open>
  \<^verbatim>\<open>bcache\<close>: the array \<^verbatim>\<open>buf[NBUF]\<close> (its length is \<^verbatim>\<open>NBUF\<close>, a constant of
  \<^verbatim>\<open>param.h\<close>, which is not among the sources), the list head, the hash map and the
  recorded size. The last two fields are not part of the C structure: they are the
  device behind \<^verbatim>\<open>virtio_disk_rw\<close>, its blocks and the transfers made so far.
\<close>

record bcache =
  buf :: "buf list"
  head :: buf
  cache_map :: "uint \<times> uint \<rightharpoonup> bufptr"
  cache_size :: cint
  disk :: "uint \<times> uint \<Rightarrow> block"
  io_log :: "io list"

text \<open>
  How a call ends: it returns a value, it panics (the kernel stops; the message and
  the cache at that moment are kept), or the caller goes to sleep in
  \<^verbatim>\<open>acquiresleep\<close> on a buffer whose sleep-lock another holder has.
\<close>

datatype 'a outcome = Returns bcache 'a | Panic string bcache | Sleeps bcache bufptr

definition DEFAULT_NBUF :: cint where
  "DEFAULT_NBUF = 128"

definition BSIZE :: nat where
  "BSIZE = 1024"

subsection \<open>Memory\<close>

text \<open>
  Reading and writing through a pointer. Dereferencing \<^verbatim>\<open>NULL\<close> or a pointer past the
  array is undefined in C; here the read is left unspecified and the write does nothing.
  The theorems below are about caches in which this does not happen.
\<close>

definition node :: "bcache \<Rightarrow> bufptr \<Rightarrow> buf" where
  "node s b = (case b of Head \<Rightarrow> head s | Buf i \<Rightarrow> buf s ! i | Null \<Rightarrow> undefined)"

definition upd :: "bufptr \<Rightarrow> (buf \<Rightarrow> buf) \<Rightarrow> bcache \<Rightarrow> bcache" where
  "upd b f s =
     (case b of
        Head \<Rightarrow> s\<lparr>head := f (head s)\<rparr>
      | Buf i \<Rightarrow> s\<lparr>buf := (buf s)[i := f (buf s ! i)]\<rparr>
      | Null \<Rightarrow> s)"

subsection \<open>Collaborators that are not among the sources\<close>

text \<open>
  Modelled from the spec: the hash map of \<^verbatim>\<open>hashmap.h\<close> (\<^verbatim>\<open>hashmap_create\<close>,
  \<^verbatim>\<open>hashmap_put\<close>, \<^verbatim>\<open>hashmap_get\<close>), which is not among the sources. The spec's Buffer
  Index is an associative structure from (device, block number) to a buffer, where a
  put inserts or updates the mapping of its key, and a get of a key without a mapping
  gives \<^verbatim>\<open>NULL\<close> (here \<open>None\<close>).
\<close>

definition hashmap_create :: "uint \<times> uint \<rightharpoonup> bufptr" where
  "hashmap_create = Map.empty"

definition hashmap_put :: "(uint \<times> uint \<rightharpoonup> bufptr) \<Rightarrow> uint \<Rightarrow> uint \<Rightarrow> bufptr \<Rightarrow> (uint \<times> uint \<rightharpoonup> bufptr)" where
  "hashmap_put m dv bn b = m((dv, bn) \<mapsto> b)"

definition hashmap_get :: "(uint \<times> uint \<rightharpoonup> bufptr) \<Rightarrow> uint \<Rightarrow> uint \<Rightarrow> bufptr option" where
  "hashmap_get m dv bn = m (dv, bn)"

text \<open>
  Modelled from the spec: the sleep-lock of \<^verbatim>\<open>sleeplock.h\<close>, which is not among the
  sources. The spec's content lock is held by at most one caller at a time, blocks a
  caller that acquires it while it is held, and can be asked whether the current caller
  holds it. \<open>acquiresleep\<close> gives \<open>None\<close> when the caller has to sleep.
\<close>

definition initsleeplock :: "bufptr \<Rightarrow> bcache \<Rightarrow> bcache" where
  "initsleeplock b s = upd b (\<lambda>x. x\<lparr>lock := None\<rparr>) s"

definition holdingsleep :: "pid \<Rightarrow> bufptr \<Rightarrow> bcache \<Rightarrow> bool" where
  "holdingsleep p b s = (lock (node s b) = Some p)"

definition acquiresleep :: "pid \<Rightarrow> bufptr \<Rightarrow> bcache \<Rightarrow> bcache option" where
  "acquiresleep p b s =
     (case lock (node s b) of
        None \<Rightarrow> Some (upd b (\<lambda>x. x\<lparr>lock := Some p\<rparr>) s)
      | Some q \<Rightarrow> None)"

definition releasesleep :: "bufptr \<Rightarrow> bcache \<Rightarrow> bcache" where
  "releasesleep b s = upd b (\<lambda>x. x\<lparr>lock := None\<rparr>) s"

text \<open>
  Modelled from the spec: \<^verbatim>\<open>virtio_disk_rw\<close>, the device transfer, which is not among
  the sources. The spec's transfer is synchronous and reads into, or writes from, the
  payload of the buffer, for the buffer's device and block number.
\<close>

definition virtio_disk_rw :: "bufptr \<Rightarrow> cint \<Rightarrow> bcache \<Rightarrow> bcache" where
  "virtio_disk_rw b w s =
     (let dv = dev (node s b); bn = blockno (node s b) in
      if w \<noteq> 0
      then s\<lparr>disk := (disk s)((dv, bn) := data (node s b)),
             io_log := io_log s @ [Disk_write dv bn]\<rparr>
      else (upd b (\<lambda>x. x\<lparr>data := disk s (dv, bn)\<rparr>) s)
             \<lparr>io_log := io_log s @ [Disk_read dv bn]\<rparr>)"

subsection \<open>binit\<close>

text \<open>The body of the loop of \<^verbatim>\<open>binit\<close>, for \<^verbatim>\<open>b = bcache.buf + i\<close>.\<close>

definition binit_step :: "nat \<Rightarrow> bcache \<Rightarrow> bcache" where
  "binit_step i s0 =
     (let b = Buf i;
          s1 = upd b (\<lambda>x. x\<lparr>next := next (head s0)\<rparr>) s0;
          s2 = upd b (\<lambda>x. x\<lparr>prev := Head\<rparr>) s1;
          s3 = initsleeplock b s2;
          s4 = upd (next (head s3)) (\<lambda>x. x\<lparr>prev := b\<rparr>) s3;
          s5 = upd Head (\<lambda>x. x\<lparr>next := b\<rparr>) s4
      in s5\<lparr>cache_map := hashmap_put (cache_map s5) (dev (node s5 b)) (blockno (node s5 b)) b\<rparr>)"

definition binit :: "bcache \<Rightarrow> bcache" where
  "binit s =
     (let s1 = upd Head (\<lambda>x. x\<lparr>prev := Head\<rparr>) s;
          s2 = upd Head (\<lambda>x. x\<lparr>next := Head\<rparr>) s1;
          s3 = s2\<lparr>cache_map := hashmap_create\<rparr>;
          s4 = s3\<lparr>cache_size := DEFAULT_NBUF\<rparr>
      in fold binit_step [0..<length (buf s4)] s4)"

subsection \<open>bget\<close>

text \<open>
  The loop \<^verbatim>\<open>for(b = bcache.head.prev; b != &bcache.head; b = b->prev)\<close>, from the
  buffer \<open>b\<close> on: the first buffer with no reference, or \<open>None\<close> when the loop reaches
  the head. The loop follows pointers and ends only if they lead to the head, so it is a
  partial function: the outer \<open>None\<close> is a loop that never ends.
\<close>

partial_function (option) bget_scan :: "bcache \<Rightarrow> bufptr \<Rightarrow> bufptr option option" where
  "bget_scan s b =
     (if b = Head then Some None
      else if refcnt (node s b) = 0 then Some (Some b)
      else bget_scan s (prev (node s b)))"

declare bget_scan.simps [code]

text \<open>The end of both paths of \<^verbatim>\<open>bget\<close>: \<^verbatim>\<open>acquiresleep(&b->lock); return b;\<close>\<close>

definition bget_lock :: "pid \<Rightarrow> bufptr \<Rightarrow> bcache \<Rightarrow> bufptr outcome" where
  "bget_lock p b s =
     (case acquiresleep p b s of
        Some s' \<Rightarrow> Returns s' b
      | None \<Rightarrow> Sleeps s b)"

text \<open>The body of the \<^verbatim>\<open>if(b->refcnt == 0)\<close> of the loop, up to the hash map's put.\<close>

definition bget_recycle :: "bufptr \<Rightarrow> uint \<Rightarrow> uint \<Rightarrow> bcache \<Rightarrow> bcache" where
  "bget_recycle b dv bn s =
     (let s1 = upd b (\<lambda>x. x\<lparr>dev := dv\<rparr>) s;
          s2 = upd b (\<lambda>x. x\<lparr>blockno := bn\<rparr>) s1;
          s3 = upd b (\<lambda>x. x\<lparr>valid := 0\<rparr>) s2;
          s4 = upd b (\<lambda>x. x\<lparr>refcnt := 1\<rparr>) s3
      in s4\<lparr>cache_map := hashmap_put (cache_map s4) dv bn b\<rparr>)"

definition bget :: "pid \<Rightarrow> uint \<Rightarrow> uint \<Rightarrow> bcache \<Rightarrow> bufptr outcome option" where
  "bget p dv bn s =
     (case hashmap_get (cache_map s) dv bn of
        Some b \<Rightarrow> Some (bget_lock p b (upd b (\<lambda>x. x\<lparr>refcnt := refcnt x + 1\<rparr>) s))
      | None \<Rightarrow>
          (case bget_scan s (prev (head s)) of
             None \<Rightarrow> None
           | Some (Some b) \<Rightarrow> Some (bget_lock p b (bget_recycle b dv bn s))
           | Some None \<Rightarrow> Some (Panic ''bget: no buffers'' s)))"

subsection \<open>bread, bwrite\<close>

text \<open>What \<^verbatim>\<open>bread\<close> does with the buffer that \<^verbatim>\<open>bget\<close> returned.\<close>

definition bread_fill :: "bufptr \<Rightarrow> bcache \<Rightarrow> bcache" where
  "bread_fill b s =
     (if valid (node s b) = 0
      then upd b (\<lambda>x. x\<lparr>valid := 1\<rparr>) (virtio_disk_rw b 0 s)
      else s)"

definition bread :: "pid \<Rightarrow> uint \<Rightarrow> uint \<Rightarrow> bcache \<Rightarrow> bufptr outcome option" where
  "bread p dv bn s =
     (case bget p dv bn s of
        None \<Rightarrow> None
      | Some (Returns s' b) \<Rightarrow> Some (Returns (bread_fill b s') b)
      | Some (Panic m s') \<Rightarrow> Some (Panic m s')
      | Some (Sleeps s' b) \<Rightarrow> Some (Sleeps s' b))"

definition bwrite :: "pid \<Rightarrow> bufptr \<Rightarrow> bcache \<Rightarrow> unit outcome" where
  "bwrite p b s =
     (if \<not> holdingsleep p b s then Panic ''bwrite'' s
      else Returns (virtio_disk_rw b 1 s) ())"

subsection \<open>brelse, bpin, bunpin, set\_cache\_size\<close>

text \<open>The six assignments that move \<open>b\<close> to the front of the list.\<close>

definition brelse_move :: "bufptr \<Rightarrow> bcache \<Rightarrow> bcache" where
  "brelse_move b s =
     (let s1 = upd (next (node s b)) (\<lambda>x. x\<lparr>prev := prev (node s b)\<rparr>) s;
          s2 = upd (prev (node s1 b)) (\<lambda>x. x\<lparr>next := next (node s1 b)\<rparr>) s1;
          s3 = upd b (\<lambda>x. x\<lparr>next := next (head s2)\<rparr>) s2;
          s4 = upd b (\<lambda>x. x\<lparr>prev := Head\<rparr>) s3;
          s5 = upd (next (head s4)) (\<lambda>x. x\<lparr>prev := b\<rparr>) s4
      in upd Head (\<lambda>x. x\<lparr>next := b\<rparr>) s5)"

definition brelse :: "pid \<Rightarrow> bufptr \<Rightarrow> bcache \<Rightarrow> unit outcome" where
  "brelse p b s =
     (if \<not> holdingsleep p b s then Panic ''brelse'' s
      else
        let s1 = releasesleep b s;
            s2 = upd b (\<lambda>x. x\<lparr>refcnt := refcnt x - 1\<rparr>) s1
        in if refcnt (node s2 b) = 0 then Returns (brelse_move b s2) ()
           else Returns s2 ())"

definition bpin :: "bufptr \<Rightarrow> bcache \<Rightarrow> unit outcome" where
  "bpin b s = Returns (upd b (\<lambda>x. x\<lparr>refcnt := refcnt x + 1\<rparr>) s) ()"

definition bunpin :: "bufptr \<Rightarrow> bcache \<Rightarrow> unit outcome" where
  "bunpin b s =
     (if refcnt (node s b) \<le> 0 then Panic ''bunpin: refcnt already zero'' s
      else Returns (upd b (\<lambda>x. x\<lparr>refcnt := refcnt x - 1\<rparr>) s) ())"

definition set_cache_size :: "cint \<Rightarrow> bcache \<Rightarrow> unit outcome" where
  "set_cache_size sz s = Returns (s\<lparr>cache_size := sz\<rparr>) ()"

subsection \<open>The cache at boot\<close>

text \<open>
  \<^verbatim>\<open>bcache\<close> is a global without an initialiser, so the kernel starts with every field
  zero: \<open>n\<close> buffers (\<open>n\<close> is \<^verbatim>\<open>NBUF\<close>) of device 0 and block 0, with no reference,
  and null links. The device's blocks \<open>dk\<close> are arbitrary.
\<close>

definition zero_buf :: buf where
  "zero_buf = \<lparr>valid = 0, dev = 0, blockno = 0, lock = None, refcnt = 0,
               prev = Null, next = Null, data = replicate BSIZE 0\<rparr>"

definition boot :: "nat \<Rightarrow> (uint \<times> uint \<Rightarrow> block) \<Rightarrow> bcache" where
  "boot n dk = \<lparr>buf = replicate n zero_buf, head = zero_buf, cache_map = Map.empty,
                cache_size = 0, disk = dk, io_log = []\<rparr>"

subsection \<open>The Recency List\<close>

text \<open>
  A pointer that can be dereferenced, and a pointer to a buffer of the pool.
\<close>

definition okp :: "bcache \<Rightarrow> bufptr \<Rightarrow> bool" where
  "okp s b = (case b of Head \<Rightarrow> True | Buf i \<Rightarrow> i < length (buf s) | Null \<Rightarrow> False)"

definition in_pool :: "bcache \<Rightarrow> bufptr \<Rightarrow> bool" where
  "in_pool s b = (case b of Buf i \<Rightarrow> i < length (buf s) | _ \<Rightarrow> False)"

text \<open>
  \<open>chain s p xs q\<close>: the \<^verbatim>\<open>next\<close> pointers lead from \<open>p\<close> through the buffers \<open>xs\<close>
  to \<open>q\<close>, and the \<^verbatim>\<open>prev\<close> pointers lead back. The Recency List is the chain from
  the head to the head: \<open>xs\<close> lists the buffers from \<^verbatim>\<open>head.next\<close> (most recently
  used) to \<^verbatim>\<open>head.prev\<close> (least recently used).
\<close>

fun chain :: "bcache \<Rightarrow> bufptr \<Rightarrow> nat list \<Rightarrow> bufptr \<Rightarrow> bool" where
  "chain s p [] q = (next (node s p) = q \<and> prev (node s q) = p)"
| "chain s p (i # is) q =
     (i < length (buf s) \<and> next (node s p) = Buf i \<and> prev (node s (Buf i)) = p \<and>
      chain s (Buf i) is q)"

definition lru_list :: "bcache \<Rightarrow> nat list \<Rightarrow> bool" where
  "lru_list s xs = (chain s Head xs Head \<and> distinct xs)"

text \<open>The same list, computed: at most \<open>k\<close> steps along \<^verbatim>\<open>next\<close>, from \<open>b\<close>.\<close>

fun walk :: "bcache \<Rightarrow> nat \<Rightarrow> bufptr \<Rightarrow> nat list" where
  "walk s 0 b = []"
| "walk s (Suc k) b = (case b of Buf i \<Rightarrow> i # walk s k (next (node s b)) | _ \<Rightarrow> [])"

definition lru_order :: "bcache \<Rightarrow> nat list" where
  "lru_order s = walk s (length (buf s)) (next (head s))"

text \<open>
  The buffer with no reference that is nearest to the least recently used end of the
  list \<open>xs\<close>.
\<close>

definition lru_free :: "bcache \<Rightarrow> nat list \<Rightarrow> nat option" where
  "lru_free s xs = find (\<lambda>i. refcnt (node s (Buf i)) = 0) (rev xs)"

subsection \<open>Sequences of calls\<close>

datatype op =
    Bget pid uint uint
  | Bread pid uint uint
  | Bwrite pid bufptr
  | Brelse pid bufptr
  | Bpin bufptr
  | Bunpin bufptr
  | Set_cache_size cint

text \<open>
  The cache after a call: the one it returns with, or the one in which the caller
  sleeps; none after a panic.
\<close>

fun after :: "'a outcome \<Rightarrow> bcache option" where
  "after (Returns s x) = Some s"
| "after (Sleeps s b) = Some s"
| "after (Panic m s) = None"

fun returned :: "'a outcome \<Rightarrow> 'a option" where
  "returned (Returns s x) = Some x"
| "returned (Sleeps s b) = None"
| "returned (Panic m s) = None"

fun exec :: "op \<Rightarrow> bcache \<Rightarrow> bcache option" where
  "exec (Bget p dv bn) s = Option.bind (bget p dv bn s) after"
| "exec (Bread p dv bn) s = Option.bind (bread p dv bn s) after"
| "exec (Bwrite p b) s = after (bwrite p b s)"
| "exec (Brelse p b) s = after (brelse p b s)"
| "exec (Bpin b) s = after (bpin b s)"
| "exec (Bunpin b) s = after (bunpin b s)"
| "exec (Set_cache_size sz) s = after (set_cache_size sz s)"

fun run :: "op list \<Rightarrow> bcache \<Rightarrow> bcache option" where
  "run [] s = Some s"
| "run (a # as) s = Option.bind (exec a s) (run as)"

text \<open>
  The caches the kernel can be in. \<^verbatim>\<open>binit\<close> runs once, at boot; then the calls come in
  any order, from any process. A caller has no other pointers to buffers than the ones
  \<^verbatim>\<open>bget\<close> gave out (through \<^verbatim>\<open>bread\<close>, for callers outside the file): the set \<open>H\<close>
  collects them, and \<^verbatim>\<open>bwrite\<close>, \<^verbatim>\<open>brelse\<close>, \<^verbatim>\<open>bpin\<close> and \<^verbatim>\<open>bunpin\<close> are called
  on buffers of \<open>H\<close>. A caller that went to sleep in \<^verbatim>\<open>acquiresleep\<close> goes on when the
  lock is free (\<open>wakes\<close>), and, in \<^verbatim>\<open>bread\<close>, then fills the buffer (\<open>fills\<close>).
\<close>

inductive reachable :: "bufptr set \<Rightarrow> bcache \<Rightarrow> bool" where
  boots: "reachable {} (binit (boot n dk))"
| gets: "reachable H s \<Longrightarrow> bget p dv bn s = Some r \<Longrightarrow> r = Returns s' b \<or> r = Sleeps s' b \<Longrightarrow>
     reachable (insert b H) s'"
| reads: "reachable H s \<Longrightarrow> bread p dv bn s = Some r \<Longrightarrow> r = Returns s' b \<or> r = Sleeps s' b \<Longrightarrow>
     reachable (insert b H) s'"
| writes: "reachable H s \<Longrightarrow> b \<in> H \<Longrightarrow> bwrite p b s = Returns s' () \<Longrightarrow> reachable H s'"
| releases: "reachable H s \<Longrightarrow> b \<in> H \<Longrightarrow> brelse p b s = Returns s' () \<Longrightarrow> reachable H s'"
| pins: "reachable H s \<Longrightarrow> b \<in> H \<Longrightarrow> bpin b s = Returns s' () \<Longrightarrow> reachable H s'"
| unpins: "reachable H s \<Longrightarrow> b \<in> H \<Longrightarrow> bunpin b s = Returns s' () \<Longrightarrow> reachable H s'"
| resizes: "reachable H s \<Longrightarrow> set_cache_size sz s = Returns s' () \<Longrightarrow> reachable H s'"
| wakes: "reachable H s \<Longrightarrow> b \<in> H \<Longrightarrow> acquiresleep p b s = Some s' \<Longrightarrow> reachable H s'"
| fills: "reachable H s \<Longrightarrow> b \<in> H \<Longrightarrow> holdingsleep p b s \<Longrightarrow> reachable H (bread_fill b s)"

subsection \<open>Invariants\<close>

text \<open>
  \<open>list_inv\<close>: every buffer of the pool is on the Recency List, once. \<open>key_inv\<close>: what
  holds of the keys of the buffers, of the hash map and of the buffers \<open>H\<close> that
  \<^verbatim>\<open>bget\<close> has given out.
\<close>

definition list_inv :: "bcache \<Rightarrow> bool" where
  "list_inv s = (\<exists>xs. lru_list s xs \<and> set xs = {..<length (buf s)})"

definition key_inv :: "bufptr set \<Rightarrow> bcache \<Rightarrow> bool" where
  "key_inv H s =
     ((\<forall>b\<in>H. in_pool s b) \<and>
      (\<forall>k b. cache_map s k = Some b \<longrightarrow>
         b \<in> H \<or> (k = (0, 0) \<and> b = Buf (length (buf s) - 1) \<and> 0 < length (buf s))) \<and>
      (\<forall>i<length (buf s). cache_map s (dev (node s (Buf i)), blockno (node s (Buf i))) \<noteq> None) \<and>
      (\<forall>i<length (buf s). Buf i \<notin> H \<longrightarrow>
         dev (node s (Buf i)) = 0 \<and> blockno (node s (Buf i)) = 0 \<and> refcnt (node s (Buf i)) = 0) \<and>
      (\<forall>i<length (buf s). Buf i \<in> H \<and> dev (node s (Buf i)) = 0 \<and> blockno (node s (Buf i)) = 0 \<longrightarrow>
         i = length (buf s) - 1) \<and>
      (\<forall>i<length (buf s). \<forall>j<length (buf s).
         i \<noteq> j \<and> dev (node s (Buf i)) = dev (node s (Buf j)) \<and>
         blockno (node s (Buf i)) = blockno (node s (Buf j)) \<longrightarrow>
         dev (node s (Buf i)) = 0 \<and> blockno (node s (Buf i)) = 0) \<and>
      (0 < length (buf s) \<longrightarrow> cache_map s (0, 0) \<noteq> None))"

subsection \<open>Reading outcomes\<close>

text \<open>The cache at a panic, if the call panics.\<close>

fun panic_state :: "'a outcome \<Rightarrow> bcache option" where
  "panic_state (Panic m s) = Some s"
| "panic_state (Returns s x) = None"
| "panic_state (Sleeps s b) = None"

subsection \<open>A cache to run the calls on\<close>

text \<open>
  A device whose blocks are all zero, and the cache of a kernel with two buffers after
  \<^verbatim>\<open>binit\<close>.
\<close>

definition blank_disk :: "uint \<times> uint \<Rightarrow> block" where
  "blank_disk = (\<lambda>k. replicate BSIZE 0)"

definition started :: bcache where
  "started = binit (boot 2 blank_disk)"

text \<open>
  That cache after calls that return: process 7 gets block 1 of device 1
  (\<open>one_held\<close>: \<^verbatim>\<open>bget\<close> recycles buffer 0) and then block 2 (\<open>both_held\<close>:
  buffer 1); or it gets block 0 of device 0, which the hash map has since \<^verbatim>\<open>binit\<close>
  (\<open>zero_held\<close>); \<open>one_read\<close> is \<open>one_held\<close> after \<^verbatim>\<open>bread\<close> filled the buffer,
  and \<open>one_released\<close> is \<open>one_read\<close> after \<^verbatim>\<open>brelse\<close> of buffer 0. The lemmas
  \<open>bget_one_held\<close>, \<open>bget_both_held\<close>, \<open>bget_zero_held\<close>, \<open>bread_one_read\<close> and
  \<open>brelse_one_released\<close> below show that the calls return these caches.
\<close>

definition one_held :: bcache where
  "one_held = upd (Buf 0) (\<lambda>x. x\<lparr>lock := Some 7\<rparr>) (bget_recycle (Buf 0) 1 1 started)"

definition both_held :: bcache where
  "both_held = upd (Buf 1) (\<lambda>x. x\<lparr>lock := Some 7\<rparr>) (bget_recycle (Buf 1) 1 2 one_held)"

definition zero_held :: bcache where
  "zero_held = upd (Buf 1) (\<lambda>x. x\<lparr>lock := Some 7\<rparr>) (upd (Buf 1) (\<lambda>x. x\<lparr>refcnt := refcnt x + 1\<rparr>) started)"

definition one_read :: bcache where
  "one_read = bread_fill (Buf 0) one_held"

definition one_released :: bcache where
  "one_released =
     brelse_move (Buf 0) (upd (Buf 0) (\<lambda>x. x\<lparr>refcnt := refcnt x - 1\<rparr>) (releasesleep (Buf 0) one_read))"

subsection \<open>Reading outcomes and traces\<close>

text \<open>The buffer that \<^verbatim>\<open>bget\<close> chose, whether the caller got it at once or sleeps on it.\<close>

fun given :: "bufptr outcome \<Rightarrow> bufptr option" where
  "given (Returns s b) = Some b"
| "given (Sleeps s b) = Some b"
| "given (Panic m s) = None"

text \<open>
  The buffer a call returned, with its device, block number, reference count and
  validity at the return.
\<close>

fun result :: "bufptr outcome option \<Rightarrow> (bufptr \<times> uint \<times> uint \<times> uint \<times> cint) option" where
  "result (Some (Returns s b)) =
     Some (b, dev (node s b), blockno (node s b), refcnt (node s b), valid (node s b))"
| "result (Some (Panic m s)) = None"
| "result (Some (Sleeps s b)) = None"
| "result None = None"

text \<open>
  Two sequences of calls. In \<open>stale_trace\<close> one process reads blocks 1, 2 and 3 of
  device 1 in turn, releasing each buffer before the next read. In \<open>lru_trace\<close> it
  gets blocks 1 and 2, pins the first buffer, releases the second, then the first, and
  unpins the first.
\<close>

definition stale_trace :: "op list" where
  "stale_trace = [Bread 7 1 1, Brelse 7 (Buf 0), Bread 7 1 2, Brelse 7 (Buf 1),
     Bread 7 1 3, Brelse 7 (Buf 0)]"

definition lru_trace :: "op list" where
  "lru_trace = [Bget 7 1 1, Bget 7 1 2, Bpin (Buf 0), Brelse 7 (Buf 1), Brelse 7 (Buf 0),
     Bunpin (Buf 0)]"

text \<open>
  The spec's "least recently released", read off a sequence of calls: \<open>release_time\<close>
  is the position (from 1, with \<open>t\<close> calls before the sequence) of the last
  \<^verbatim>\<open>brelse\<close> of the buffer, 0 if there is none; a buffer is least recently released
  among the buffers without reference when none of them was released before it.
\<close>

fun releases_of :: "op \<Rightarrow> bufptr \<Rightarrow> bool" where
  "releases_of (Brelse p c) b = (c = b)"
| "releases_of a b = False"

fun release_time :: "nat \<Rightarrow> op list \<Rightarrow> bufptr \<Rightarrow> nat" where
  "release_time t [] b = 0"
| "release_time t (a # as) b =
     (let r = release_time (Suc t) as b
      in if r \<noteq> 0 then r else if releases_of a b then Suc t else 0)"

definition least_recently_released :: "op list \<Rightarrow> bcache \<Rightarrow> bufptr \<Rightarrow> bool" where
  "least_recently_released ops s v =
     list_all (\<lambda>i. refcnt (node s (Buf i)) \<noteq> 0 \<or> release_time 0 ops v \<le> release_time 0 ops (Buf i))
       [0..<length (buf s)]"


section \<open>Properties\<close>

subsection \<open>Pointers and chains\<close>

lemma okp_simps [simp]: "okp s Head" "\<not> okp s Null" "okp s (Buf i) = (i < length (buf s))"
  by (simp_all add: okp_def)

lemma in_pool_simps [simp]: "\<not> in_pool s Head" "\<not> in_pool s Null" "in_pool s (Buf i) = (i < length (buf s))"
  by (simp_all add: in_pool_def)

lemma in_pool_okp: "in_pool s b \<Longrightarrow> okp s b"
  by (cases b) simp_all

lemma node_simps: "node s Head = head s" "node s (Buf i) = buf s ! i"
  by (simp_all add: node_def)

lemma length_upd [simp]: "length (buf (upd b f s)) = length (buf s)"
  by (cases b) (simp_all add: upd_def)

lemma okp_upd [simp]: "okp (upd b f s) r = okp s r"
  by (cases r) simp_all

lemma in_pool_upd [simp]: "in_pool (upd b f s) r = in_pool s r"
  by (cases r) simp_all

lemma upd_fields [simp]:
  "cache_map (upd b f s) = cache_map s"
  "cache_size (upd b f s) = cache_size s"
  "disk (upd b f s) = disk s"
  "io_log (upd b f s) = io_log s"
  by (cases b; simp add: upd_def)+

lemma node_upd: "node (upd b f s) r = (if r = b \<and> okp s r then f (node s r) else node s r)"
  by (cases b; cases r) (auto simp: upd_def node_def nth_list_update list_update_beyond)

lemma node_upd_same [simp]: "okp s b \<Longrightarrow> node (upd b f s) b = f (node s b)"
  by (simp add: node_upd)

lemma node_upd_other [simp]: "r \<noteq> b \<Longrightarrow> node (upd b f s) r = node s r"
  by (simp add: node_upd)

lemma node_upd_field: "(\<And>x. g (f x) = g x) \<Longrightarrow> g (node (upd b f s) r) = g (node s r)"
  by (simp add: node_upd)

lemma buf_upd_Head [simp]: "buf (upd Head f s) = buf s"
  by (simp add: upd_def)

lemma chain_local:
  assumes "length (buf s') = length (buf s)"
    and "next (node s' p) = next (node s p)"
    and "\<And>x. x \<in> set xs \<Longrightarrow> x < length (buf s) \<Longrightarrow> next (node s' (Buf x)) = next (node s (Buf x)) \<and> prev (node s' (Buf x)) = prev (node s (Buf x))"
    and "prev (node s' q) = prev (node s q)"
  shows "chain s' p xs q = chain s p xs q"
  using assms
proof (induction xs arbitrary: p)
  case Nil
  then show ?case by simp
next
  case (Cons x xs)
  have "chain s' (Buf x) xs q = chain s (Buf x) xs q" if "x < length (buf s)"
    using Cons.prems that by (intro Cons.IH) auto
  then show ?case using Cons.prems by auto
qed

lemma chain_append:
  "chain s p (us @ i # vs) q = (chain s p us (Buf i) \<and> i < length (buf s) \<and> chain s (Buf i) vs q)"
  by (induction us arbitrary: p) auto

lemma chain_upd_frame:
  assumes "\<And>x. next (f x) = next x" "\<And>x. prev (f x) = prev x"
  shows "chain (upd b f s) p xs q = chain s p xs q"
  by (rule chain_local) (simp_all add: node_upd assms)

lemma node_other_fields [simp]:
  "node (cache_map_update fm s) r = node s r"
  "node (cache_size_update fc s) r = node s r"
  "node (disk_update fd s) r = node s r"
  "node (io_log_update fi s) r = node s r"
  by (cases r; simp add: node_def)+

lemma head_node [simp]: "head s = node s Head"
  by (simp add: node_simps)

lemmas upd_ifs = node_upd

lemmas node_upd_keep [simp] =
  node_upd_field [where g = dev] node_upd_field [where g = blockno]
  node_upd_field [where g = refcnt] node_upd_field [where g = valid]
  node_upd_field [where g = lock] node_upd_field [where g = data]
  node_upd_field [where g = prev] node_upd_field [where g = "next"]

lemma chain_prev_end: "chain s p xs q \<Longrightarrow> prev (node s q) = (if xs = [] then p else Buf (last xs))"
  by (induction xs arbitrary: p) auto

lemma chain_next_start: "chain s p xs q \<Longrightarrow> next (node s p) = (if xs = [] then q else Buf (hd xs))"
  by (cases xs) auto

lemma chain_in_pool: "chain s p xs q \<Longrightarrow> x \<in> set xs \<Longrightarrow> x < length (buf s)"
  by (induction xs arbitrary: p) auto

text \<open>Putting a buffer at the front.\<close>

lemma chain_push_front:
  assumes len: "length (buf s') = length (buf s)"
    and nx: "\<And>r. okp s r \<Longrightarrow> next (node s' r) =
        (if r = Head then Buf i else if r = Buf i then next (node s Head) else next (node s r))"
    and pv: "\<And>r. okp s r \<Longrightarrow> prev (node s' r) =
        (if r = next (node s Head) then Buf i else if r = Buf i then Head else prev (node s r))"
    and ch: "chain s Head xs Head" and notin: "i \<notin> set xs" and i: "i < length (buf s)"
    and dist: "distinct xs"
  shows "chain s' Head (i # xs) Head"
proof (cases xs)
  case Nil
  with ch have "next (node s Head) = Head" by simp
  with Nil show ?thesis using len i nx [of Head] nx [of "Buf i"] pv [of Head] pv [of "Buf i"]
    by simp
next
  case (Cons j js)
  with ch have j: "j < length (buf s)" "next (node s Head) = Buf j" and rest: "chain s (Buf j) js Head"
    by simp_all
  from Cons notin dist have ne: "j \<noteq> i" "j \<notin> set js" "i \<notin> set js" by auto
  have "chain s' (Buf j) js Head = chain s (Buf j) js Head"
  proof (rule chain_local [OF len])
    show "next (node s' (Buf j)) = next (node s (Buf j))"
      using nx [of "Buf j"] j ne by simp
    show "prev (node s' Head) = prev (node s Head)"
      using pv [of Head] j by simp
    fix x assume "x \<in> set js" "x < length (buf s)"
    then show "next (node s' (Buf x)) = next (node s (Buf x)) \<and> prev (node s' (Buf x)) = prev (node s (Buf x))"
      using nx [of "Buf x"] pv [of "Buf x"] ne j by auto
  qed
  with rest have "chain s' (Buf j) js Head" by simp
  then show ?thesis
    using Cons len i j ne nx [of Head] nx [of "Buf i"] pv [of "Buf j"] pv [of "Buf i"]
    by simp
qed

text \<open>Taking a buffer out.\<close>

lemma chain_unlink:
  assumes len: "length (buf s') = length (buf s)"
    and nx: "\<And>r. okp s r \<Longrightarrow> next (node s' r) =
        (if r = prev (node s (Buf i)) then next (node s (Buf i)) else next (node s r))"
    and pv: "\<And>r. okp s r \<Longrightarrow> prev (node s' r) =
        (if r = next (node s (Buf i)) then prev (node s (Buf i)) else prev (node s r))"
  shows "chain s p (us @ i # vs) q \<Longrightarrow> distinct (us @ i # vs) \<Longrightarrow> okp s p \<Longrightarrow> okp s q \<Longrightarrow>
     p \<notin> Buf ` set (us @ i # vs) \<Longrightarrow> q \<notin> Buf ` set (us @ i # vs) \<Longrightarrow>
     chain s' p (us @ vs) q"
proof (induction us arbitrary: p)
  case Nil
  then have i: "i < length (buf s)" and P: "prev (node s (Buf i)) = p" and pn: "next (node s p) = Buf i"
    and rest: "chain s (Buf i) vs q"
    by simp_all
  show ?case
  proof (cases vs)
    case Nil
    with rest have "next (node s (Buf i)) = q" "prev (node s q) = Buf i" by simp_all
    then show ?thesis using Nil P nx [of p] pv [of q] \<open>okp s p\<close> \<open>okp s q\<close> by simp
  next
    case (Cons j ws)
    with rest have j: "j < length (buf s)" and N: "next (node s (Buf i)) = Buf j"
      and rest': "chain s (Buf j) ws q" by simp_all
    from Cons Nil.prems have ne: "j \<noteq> i" "j \<notin> set ws" "p \<noteq> Buf j" "q \<noteq> Buf j" "p \<notin> Buf ` set ws"
      by auto
    have "chain s' (Buf j) ws q = chain s (Buf j) ws q"
    proof (rule chain_local [OF len])
      show "next (node s' (Buf j)) = next (node s (Buf j))"
        using nx [of "Buf j"] j ne P by auto
      show "prev (node s' q) = prev (node s q)"
        using pv [of q] \<open>okp s q\<close> N ne by simp
      fix x assume x: "x \<in> set ws" "x < length (buf s)"
      with ne have "Buf x \<noteq> p" "x \<noteq> j" by auto
      with x show "next (node s' (Buf x)) = next (node s (Buf x)) \<and> prev (node s' (Buf x)) = prev (node s (Buf x))"
        using nx [of "Buf x"] pv [of "Buf x"] P N by simp
    qed
    with rest' have "chain s' (Buf j) ws q" by simp
    then show ?thesis
      using Cons j P N nx [of p] pv [of "Buf j"] \<open>okp s p\<close> len by simp
  qed
next
  case (Cons u us)
  then have u: "u < length (buf s)" and pn: "next (node s p) = Buf u" and up: "prev (node s (Buf u)) = p"
    and rest: "chain s (Buf u) (us @ i # vs) q"
    by simp_all
  from rest have split: "chain s (Buf u) us (Buf i)" "chain s (Buf i) vs q"
    by (simp_all add: chain_append)
  have P: "prev (node s (Buf i)) = (if us = [] then Buf u else Buf (last us))"
    using chain_prev_end [OF split(1)] by simp
  have N: "next (node s (Buf i)) = (if vs = [] then q else Buf (hd vs))"
    using chain_next_start [OF split(2)] by simp
  have "p \<noteq> prev (node s (Buf i))"
    using P Cons.prems(5) by (auto split: if_splits)
  then have 1: "next (node s' p) = Buf u"
    using nx [of p] \<open>okp s p\<close> pn by simp
  have "Buf u \<noteq> next (node s (Buf i))"
    using N Cons.prems(2,6) by (cases vs) (auto split: if_splits)
  then have 2: "prev (node s' (Buf u)) = p"
    using pv [of "Buf u"] u up by simp
  have "chain s' (Buf u) (us @ vs) q"
    using Cons.prems by (intro Cons.IH [OF rest]) auto
  with 1 2 u len show ?case by simp
qed

lemma distinct_split_remove1:
  "distinct (us @ i # vs) \<Longrightarrow> remove1 i (us @ i # vs) = us @ vs"
  by (simp add: remove1_append)

lemma lru_list_brelse_move:
  assumes "lru_list s xs" and "i \<in> set xs"
  shows "lru_list (brelse_move (Buf i) s) (i # remove1 i xs)"
proof -
  from assms obtain us vs where xs: "xs = us @ i # vs"
    by (auto simp: in_set_conv_decomp)
  from assms have ch: "chain s Head (us @ i # vs) Head" and dist: "distinct (us @ i # vs)"
    by (simp_all add: lru_list_def xs)
  then have i: "i < length (buf s)" by (simp add: chain_append)
  let ?b = "Buf i"
  define P where "P = prev (node s ?b)"
  define Nx where "Nx = next (node s ?b)"
  define s1 where "s1 = upd Nx (\<lambda>x. x\<lparr>prev := P\<rparr>) s"
  define s2 where "s2 = upd P (\<lambda>x. x\<lparr>next := Nx\<rparr>) s1"
  define F where "F = next (head s2)"
  define s3 where "s3 = upd ?b (\<lambda>x. x\<lparr>next := F\<rparr>) s2"
  define s4 where "s4 = upd ?b (\<lambda>x. x\<lparr>prev := Head\<rparr>) s3"
  define s5 where "s5 = upd F (\<lambda>x. x\<lparr>prev := ?b\<rparr>) s4"
  define s6 where "s6 = upd Head (\<lambda>x. x\<lparr>next := ?b\<rparr>) s5"
  have P1: "prev (node s1 ?b) = P" and N1: "next (node s1 ?b) = Nx"
    by (simp_all add: s1_def upd_ifs P_def Nx_def)
  have h4: "next (head s4) = F"
    by (simp add: s4_def s3_def F_def)
  have move: "brelse_move ?b s = s6"
    unfolding brelse_move_def Let_def
    unfolding P_def [symmetric] Nx_def [symmetric] s1_def [symmetric] P1 N1 s2_def [symmetric]
      F_def [symmetric] s3_def [symmetric] s4_def [symmetric] h4 s5_def [symmetric]
      s6_def [symmetric] ..
  have len2: "length (buf s2) = length (buf s)" by (simp add: s2_def s1_def)
  have nx2: "next (node s2 r) = (if r = P then Nx else next (node s r))" if "okp s r" for r
    using that by (auto simp: s2_def s1_def upd_ifs)
  have pv2: "prev (node s2 r) = (if r = Nx then P else prev (node s r))" if "okp s r" for r
    using that by (auto simp: s2_def s1_def upd_ifs)
  have ch2: "chain s2 Head (us @ vs) Head"
    using chain_unlink [OF len2 nx2 [unfolded P_def Nx_def] pv2 [unfolded P_def Nx_def] ch dist]
    by auto
  have len6: "length (buf s6) = length (buf s2)"
    by (simp add: s6_def s5_def s4_def s3_def)
  have nx6: "next (node s6 r) =
      (if r = Head then ?b else if r = ?b then F else next (node s2 r))"
    if "okp s2 r" for r
    using that by (auto simp: s6_def s5_def s4_def s3_def upd_ifs)
  have pv6: "prev (node s6 r) =
      (if r = F then ?b else if r = ?b then Head else prev (node s2 r))"
    if "okp s2 r" for r
    using that by (auto simp: s6_def s5_def s4_def s3_def upd_ifs)
  have F: "F = next (node s2 Head)" by (simp add: F_def)
  have "chain s6 Head (i # (us @ vs)) Head"
  proof (rule chain_push_front [where s = s2])
    show "length (buf s6) = length (buf s2)" by (rule len6)
    show "next (node s6 r) =
        (if r = Head then ?b else if r = ?b then next (node s2 Head) else next (node s2 r))"
      if "okp s2 r" for r using nx6 [OF that] F by simp
    show "prev (node s6 r) =
        (if r = next (node s2 Head) then ?b else if r = ?b then Head else prev (node s2 r))"
      if "okp s2 r" for r using pv6 [OF that] F by simp
    show "chain s2 Head (us @ vs) Head" by (rule ch2)
    show "i \<notin> set (us @ vs)" "i < length (buf s2)" "distinct (us @ vs)"
      using dist i by (simp_all add: len2)
  qed
  then show ?thesis
    using dist by (simp add: lru_list_def move xs distinct_split_remove1 del: chain.simps)
qed

lemma chain_other_fields [simp]:
  "chain (cache_map_update fm s) p xs q = chain s p xs q"
  "chain (cache_size_update fc s) p xs q = chain s p xs q"
  "chain (disk_update fd s) p xs q = chain s p xs q"
  "chain (io_log_update fi s) p xs q = chain s p xs q"
  by (rule chain_local; simp)+

subsection \<open>binit\<close>

lemma binit_step_length [simp]: "length (buf (binit_step i s)) = length (buf s)"
  by (simp add: binit_step_def Let_def initsleeplock_def)

lemma binit_step_chain:
  assumes ch: "chain s Head xs Head" and dist: "distinct xs" and notin: "i \<notin> set xs"
    and i: "i < length (buf s)"
  shows "chain (binit_step i s) Head (i # xs) Head"
proof -
  let ?b = "Buf i"
  define F where "F = next (head s)"
  define s1 where "s1 = upd ?b (\<lambda>x. x\<lparr>next := F\<rparr>) s"
  define s2 where "s2 = upd ?b (\<lambda>x. x\<lparr>prev := Head\<rparr>) s1"
  define s3 where "s3 = initsleeplock ?b s2"
  define s4 where "s4 = upd F (\<lambda>x. x\<lparr>prev := ?b\<rparr>) s3"
  define s5 where "s5 = upd Head (\<lambda>x. x\<lparr>next := ?b\<rparr>) s4"
  have h3: "next (head s3) = F"
    by (simp add: s3_def s2_def s1_def F_def initsleeplock_def)
  have step: "binit_step i s = s5\<lparr>cache_map :=
      hashmap_put (cache_map s5) (dev (node s5 ?b)) (blockno (node s5 ?b)) ?b\<rparr>"
    unfolding binit_step_def Let_def
    unfolding F_def [symmetric] s1_def [symmetric] s2_def [symmetric] s3_def [symmetric] h3
      s4_def [symmetric] s5_def [symmetric] ..
  have len: "length (buf s5) = length (buf s)"
    by (simp add: s5_def s4_def s3_def s2_def s1_def initsleeplock_def)
  have nx: "next (node s5 r) =
      (if r = Head then ?b else if r = ?b then F else next (node s r))" if "okp s r" for r
    using that by (auto simp: s5_def s4_def s3_def s2_def s1_def initsleeplock_def upd_ifs)
  have pv: "prev (node s5 r) =
      (if r = F then ?b else if r = ?b then Head else prev (node s r))" if "okp s r" for r
    using that by (auto simp: s5_def s4_def s3_def s2_def s1_def initsleeplock_def upd_ifs)
  have F: "F = next (node s Head)" by (simp add: F_def)
  have "chain s5 Head (i # xs) Head"
  proof (rule chain_push_front [where s = s])
    show "length (buf s5) = length (buf s)" by (rule len)
    show "next (node s5 r) =
        (if r = Head then ?b else if r = ?b then next (node s Head) else next (node s r))"
      if "okp s r" for r using nx [OF that] F by simp
    show "prev (node s5 r) =
        (if r = next (node s Head) then ?b else if r = ?b then Head else prev (node s r))"
      if "okp s r" for r using pv [OF that] F by simp
  qed (fact ch notin i dist)+
  then show ?thesis
    by (simp add: step del: chain.simps)
qed

lemma binit_step_data:
  "dev (node (binit_step i s) r) = dev (node s r)"
  "blockno (node (binit_step i s) r) = blockno (node s r)"
  "refcnt (node (binit_step i s) r) = refcnt (node s r)"
  "valid (node (binit_step i s) r) = valid (node s r)"
  "data (node (binit_step i s) r) = data (node s r)"
  by (simp_all add: binit_step_def Let_def initsleeplock_def)

lemma binit_step_map:
  "cache_map (binit_step i s) =
     (cache_map s)((dev (node s (Buf i)), blockno (node s (Buf i))) \<mapsto> Buf i)"
  by (simp add: binit_step_def Let_def initsleeplock_def hashmap_put_def)

lemma binit_step_rest:
  "cache_size (binit_step i s) = cache_size s"
  "disk (binit_step i s) = disk s"
  "io_log (binit_step i s) = io_log s"
  by (simp_all add: binit_step_def Let_def initsleeplock_def)

lemma binit_step_lock:
  "i < length (buf s) \<Longrightarrow>
   lock (node (binit_step i s) r) = (if r = Buf i then None else lock (node s r))"
  by (cases "next (node s Head) = Buf i")
     (auto simp: binit_step_def Let_def initsleeplock_def upd_ifs)

lemma binit_loop_length [simp]: "length (buf (fold binit_step xs s)) = length (buf s)"
  by (induction xs arbitrary: s) simp_all

lemma binit_loop_data:
  "dev (node (fold binit_step xs s) r) = dev (node s r)"
  "blockno (node (fold binit_step xs s) r) = blockno (node s r)"
  "refcnt (node (fold binit_step xs s) r) = refcnt (node s r)"
  "valid (node (fold binit_step xs s) r) = valid (node s r)"
  "data (node (fold binit_step xs s) r) = data (node s r)"
  by (induction xs arbitrary: s; simp add: binit_step_data)+

lemma binit_loop_rest:
  "cache_size (fold binit_step xs s) = cache_size s"
  "disk (fold binit_step xs s) = disk s"
  "io_log (fold binit_step xs s) = io_log s"
  by (induction xs arbitrary: s; simp add: binit_step_rest)+

lemma binit_loop_chain:
  "k \<le> length (buf s) \<Longrightarrow> chain s Head [] Head \<Longrightarrow>
   chain (fold binit_step [0..<k] s) Head (rev [0..<k]) Head"
proof (induction k)
  case 0
  then show ?case by simp
next
  case (Suc k)
  then have "chain (fold binit_step [0..<k] s) Head (rev [0..<k]) Head" by simp
  then have "chain (binit_step k (fold binit_step [0..<k] s)) Head (k # rev [0..<k]) Head"
    using Suc.prems by (intro binit_step_chain) simp_all
  then show ?case by (simp del: chain.simps)
qed

lemma binit_loop_map:
  assumes "\<And>i. i < k \<Longrightarrow> dev (node s (Buf i)) = dv \<and> blockno (node s (Buf i)) = bn"
  shows "cache_map (fold binit_step [0..<k] s) =
     (if k = 0 then cache_map s else (cache_map s)((dv, bn) \<mapsto> Buf (k - 1)))"
  using assms
proof (induction k)
  case 0
  then show ?case by simp
next
  case (Suc k)
  then show ?case
    by (auto simp: binit_step_map binit_loop_data)
qed

lemma binit_loop_lock:
  "k \<le> length (buf s) \<Longrightarrow> i < k \<Longrightarrow> lock (node (fold binit_step [0..<k] s) (Buf i)) = None"
proof (induction k)
  case 0
  then show ?case by simp
next
  case (Suc k)
  then show ?case
    by (cases "i = k") (simp_all add: binit_step_lock)
qed

lemma binit_length [simp]: "length (buf (binit s)) = length (buf s)"
  by (simp add: binit_def Let_def)

lemma binit_lru_list: "lru_list (binit s) (rev [0..<length (buf s)])"
proof -
  define s4 where "s4 = (upd Head (\<lambda>x. x\<lparr>next := Head\<rparr>) (upd Head (\<lambda>x. x\<lparr>prev := Head\<rparr>) s))
    \<lparr>cache_map := hashmap_create, cache_size := DEFAULT_NBUF\<rparr>"
  have len: "length (buf s4) = length (buf s)" by (simp add: s4_def)
  have "chain s4 Head [] Head" by (simp add: s4_def upd_ifs)
  then have "chain (fold binit_step [0..<length (buf s4)] s4) Head (rev [0..<length (buf s4)]) Head"
    by (intro binit_loop_chain) simp_all
  moreover have "binit s = fold binit_step [0..<length (buf s4)] s4"
    by (simp add: binit_def Let_def s4_def)
  ultimately show ?thesis by (simp add: lru_list_def len del: chain.simps)
qed

lemma binit_data:
  "dev (node (binit s) r) = dev (node s r)"
  "blockno (node (binit s) r) = blockno (node s r)"
  "refcnt (node (binit s) r) = refcnt (node s r)"
  "valid (node (binit s) r) = valid (node s r)"
  "data (node (binit s) r) = data (node s r)"
  by (simp_all add: binit_def Let_def binit_loop_data)

lemma binit_rest:
  "cache_size (binit s) = DEFAULT_NBUF"
  "disk (binit s) = disk s"
  "io_log (binit s) = io_log s"
  by (simp_all add: binit_def Let_def binit_loop_rest)

lemma binit_lock: "i < length (buf s) \<Longrightarrow> lock (node (binit s) (Buf i)) = None"
  by (simp add: binit_def Let_def binit_loop_lock)

lemma binit_map:
  assumes "\<And>i. i < length (buf s) \<Longrightarrow> dev (node s (Buf i)) = dv \<and> blockno (node s (Buf i)) = bn"
  shows "cache_map (binit s) =
     (if length (buf s) = 0 then Map.empty else [(dv, bn) \<mapsto> Buf (length (buf s) - 1)])"
  unfolding binit_def Let_def
  by (subst binit_loop_map [where dv = dv and bn = bn]) (simp_all add: assms hashmap_create_def)

lemma boot_simps [simp]:
  "length (buf (boot n dk)) = n"
  "disk (boot n dk) = dk"
  "io_log (boot n dk) = []"
  "i < n \<Longrightarrow> node (boot n dk) (Buf i) = zero_buf"
  by (simp_all add: boot_def node_def)

lemma zero_buf_simps [simp]:
  "dev zero_buf = 0" "blockno zero_buf = 0" "refcnt zero_buf = 0" "valid zero_buf = 0"
  "lock zero_buf = None"
  by (simp_all add: zero_buf_def)

lemma binit_boot_map:
  "cache_map (binit (boot n dk)) = (if n = 0 then Map.empty else [(0, 0) \<mapsto> Buf (n - 1)])"
  using binit_map [of "boot n dk" 0 0] by simp

subsection \<open>Walking the list\<close>

lemma walk_chain:
  "chain s p xs Head \<Longrightarrow> length xs \<le> k \<Longrightarrow> walk s k (next (node s p)) = xs"
proof (induction xs arbitrary: p k)
  case Nil
  then show ?case by (cases k) simp_all
next
  case (Cons x xs)
  then obtain k' where k: "k = Suc k'" "length xs \<le> k'" by (cases k) auto
  from Cons.prems have "next (node s p) = Buf x" "chain s (Buf x) xs Head" by simp_all
  then show ?case using Cons.IH [of "Buf x" k'] k by simp
qed

lemma lru_list_length:
  assumes "lru_list s xs" shows "length xs \<le> length (buf s)"
proof -
  from assms have "distinct xs" "set xs \<subseteq> {..<length (buf s)}"
    by (auto simp: lru_list_def dest: chain_in_pool)
  then have "card (set xs) \<le> card {..<length (buf s)}"
    by (intro card_mono) simp_all
  with \<open>distinct xs\<close> show ?thesis by (simp add: distinct_card)
qed

lemma lru_order_eq: "lru_list s xs \<Longrightarrow> lru_order s = xs"
  using walk_chain [of s Head xs "length (buf s)"] lru_list_length [of s xs]
  by (simp add: lru_order_def lru_list_def)

lemma lru_list_unique: "lru_list s xs \<Longrightarrow> lru_list s ys \<Longrightarrow> xs = ys"
  using lru_order_eq by metis

subsection \<open>The scan of bget\<close>

lemma bget_scan_chain:
  "chain s Head us q \<Longrightarrow>
   bget_scan s (prev (node s q)) =
     Some (map_option Buf (find (\<lambda>i. refcnt (node s (Buf i)) = 0) (rev us)))"
proof (induction us arbitrary: q rule: rev_induct)
  case Nil
  then show ?case by (simp add: bget_scan.simps)
next
  case (snoc u us)
  then have 1: "chain s Head us (Buf u)" and 2: "prev (node s q) = Buf u"
    by (simp_all add: chain_append)
  show ?case
    using snoc.IH [OF 1] by (subst bget_scan.simps) (simp add: 2)
qed

lemma bget_scan_lru:
  "lru_list s xs \<Longrightarrow> bget_scan s (prev (node s Head)) = Some (map_option Buf (lru_free s xs))"
  using bget_scan_chain [of s xs Head] by (simp add: lru_list_def lru_free_def)

lemma lru_list_frame:
  assumes "length (buf s') = length (buf s)"
    and "\<And>r. next (node s' r) = next (node s r)" "\<And>r. prev (node s' r) = prev (node s r)"
  shows "lru_list s' xs = lru_list s xs"
  unfolding lru_list_def using assms by (simp add: chain_local [of s' s])

lemma list_inv_frame:
  assumes "length (buf s') = length (buf s)"
    and "\<And>r. next (node s' r) = next (node s r)" "\<And>r. prev (node s' r) = prev (node s r)"
  shows "list_inv s' = list_inv s"
  unfolding list_inv_def using assms by (simp add: lru_list_frame [of s' s])

lemma in_pool_length: "length (buf s') = length (buf s) \<Longrightarrow> in_pool s' b = in_pool s b"
  by (cases b) simp_all

lemma key_invD:
  assumes "key_inv H s"
  shows "b \<in> H \<Longrightarrow> in_pool s b"
    and "cache_map s k = Some b \<Longrightarrow>
         b \<in> H \<or> (k = (0, 0) \<and> b = Buf (length (buf s) - 1) \<and> 0 < length (buf s))"
    and "i < length (buf s) \<Longrightarrow>
         cache_map s (dev (node s (Buf i)), blockno (node s (Buf i))) \<noteq> None"
    and "i < length (buf s) \<Longrightarrow> Buf i \<notin> H \<Longrightarrow>
         dev (node s (Buf i)) = 0 \<and> blockno (node s (Buf i)) = 0 \<and> refcnt (node s (Buf i)) = 0"
    and "i < length (buf s) \<Longrightarrow> Buf i \<in> H \<Longrightarrow> dev (node s (Buf i)) = 0 \<Longrightarrow>
         blockno (node s (Buf i)) = 0 \<Longrightarrow> i = length (buf s) - 1"
    and "i < length (buf s) \<Longrightarrow> j < length (buf s) \<Longrightarrow> i \<noteq> j \<Longrightarrow>
         dev (node s (Buf i)) = dev (node s (Buf j)) \<Longrightarrow>
         blockno (node s (Buf i)) = blockno (node s (Buf j)) \<Longrightarrow>
         dev (node s (Buf i)) = 0 \<and> blockno (node s (Buf i)) = 0"
    and "0 < length (buf s) \<Longrightarrow> cache_map s (0, 0) \<noteq> None"
proof -
  note k = assms [unfolded key_inv_def]
  note 1 = k [THEN conjunct1]
  note k2 = k [THEN conjunct2]
  note 2 = k2 [THEN conjunct1]
  note k3 = k2 [THEN conjunct2]
  note 3 = k3 [THEN conjunct1]
  note k4 = k3 [THEN conjunct2]
  note 4 = k4 [THEN conjunct1]
  note k5 = k4 [THEN conjunct2]
  note 5 = k5 [THEN conjunct1]
  note k6 = k5 [THEN conjunct2]
  note 6 = k6 [THEN conjunct1]
  note 7 = k6 [THEN conjunct2]
  show "b \<in> H \<Longrightarrow> in_pool s b" using 1 by (rule bspec)
  show "cache_map s k = Some b \<Longrightarrow>
         b \<in> H \<or> (k = (0, 0) \<and> b = Buf (length (buf s) - 1) \<and> 0 < length (buf s))"
    using 2 [rule_format, of k b] .
  show "i < length (buf s) \<Longrightarrow>
         cache_map s (dev (node s (Buf i)), blockno (node s (Buf i))) \<noteq> None"
    using 3 [rule_format, of i] .
  show "i < length (buf s) \<Longrightarrow> Buf i \<notin> H \<Longrightarrow>
         dev (node s (Buf i)) = 0 \<and> blockno (node s (Buf i)) = 0 \<and> refcnt (node s (Buf i)) = 0"
    using 4 [rule_format, of i] .
  show "i < length (buf s) \<Longrightarrow> Buf i \<in> H \<Longrightarrow> dev (node s (Buf i)) = 0 \<Longrightarrow>
         blockno (node s (Buf i)) = 0 \<Longrightarrow> i = length (buf s) - 1"
    using 5 [rule_format, of i] by simp
  show "i < length (buf s) \<Longrightarrow> j < length (buf s) \<Longrightarrow> i \<noteq> j \<Longrightarrow>
         dev (node s (Buf i)) = dev (node s (Buf j)) \<Longrightarrow>
         blockno (node s (Buf i)) = blockno (node s (Buf j)) \<Longrightarrow>
         dev (node s (Buf i)) = 0 \<and> blockno (node s (Buf i)) = 0"
    using 6 [rule_format, of i j] by simp
  show "0 < length (buf s) \<Longrightarrow> cache_map s (0, 0) \<noteq> None"
    using 7 [rule_format] .
qed

lemma key_invI:
  assumes "\<And>b. b \<in> H \<Longrightarrow> in_pool s b"
    and "\<And>k b. cache_map s k = Some b \<Longrightarrow>
         b \<in> H \<or> (k = (0, 0) \<and> b = Buf (length (buf s) - 1) \<and> 0 < length (buf s))"
    and "\<And>i. i < length (buf s) \<Longrightarrow>
         cache_map s (dev (node s (Buf i)), blockno (node s (Buf i))) \<noteq> None"
    and "\<And>i. i < length (buf s) \<Longrightarrow> Buf i \<notin> H \<Longrightarrow>
         dev (node s (Buf i)) = 0 \<and> blockno (node s (Buf i)) = 0 \<and> refcnt (node s (Buf i)) = 0"
    and "\<And>i. i < length (buf s) \<Longrightarrow> Buf i \<in> H \<Longrightarrow> dev (node s (Buf i)) = 0 \<Longrightarrow>
         blockno (node s (Buf i)) = 0 \<Longrightarrow> i = length (buf s) - 1"
    and "\<And>i j. i < length (buf s) \<Longrightarrow> j < length (buf s) \<Longrightarrow> i \<noteq> j \<Longrightarrow>
         dev (node s (Buf i)) = dev (node s (Buf j)) \<Longrightarrow>
         blockno (node s (Buf i)) = blockno (node s (Buf j)) \<Longrightarrow>
         dev (node s (Buf i)) = 0 \<and> blockno (node s (Buf i)) = 0"
    and "0 < length (buf s) \<Longrightarrow> cache_map s (0, 0) \<noteq> None"
  shows "key_inv H s"
  unfolding key_inv_def
proof (intro conjI ballI allI impI; (elim conjE)?)
  show "\<And>b. b \<in> H \<Longrightarrow> in_pool s b" by (rule assms(1))
  show "\<And>k b. cache_map s k = Some b \<Longrightarrow>
         b \<in> H \<or> (k = (0, 0) \<and> b = Buf (length (buf s) - 1) \<and> 0 < length (buf s))"
    by (rule assms(2))
  show "\<And>i. i < length (buf s) \<Longrightarrow>
         cache_map s (dev (node s (Buf i)), blockno (node s (Buf i))) \<noteq> None"
    by (rule assms(3))
  show "\<And>i. i < length (buf s) \<Longrightarrow> Buf i \<notin> H \<Longrightarrow> dev (node s (Buf i)) = 0"
    "\<And>i. i < length (buf s) \<Longrightarrow> Buf i \<notin> H \<Longrightarrow> blockno (node s (Buf i)) = 0"
    "\<And>i. i < length (buf s) \<Longrightarrow> Buf i \<notin> H \<Longrightarrow> refcnt (node s (Buf i)) = 0"
    using assms(4) by simp_all
  show "\<And>i. i < length (buf s) \<Longrightarrow> Buf i \<in> H \<Longrightarrow> dev (node s (Buf i)) = 0 \<Longrightarrow>
         blockno (node s (Buf i)) = 0 \<Longrightarrow> i = length (buf s) - 1"
    by (rule assms(5))
  show "\<And>i j. i < length (buf s) \<Longrightarrow> j < length (buf s) \<Longrightarrow> i \<noteq> j \<Longrightarrow>
         dev (node s (Buf i)) = dev (node s (Buf j)) \<Longrightarrow>
         blockno (node s (Buf i)) = blockno (node s (Buf j)) \<Longrightarrow>
         dev (node s (Buf i)) = 0"
    "\<And>i j. i < length (buf s) \<Longrightarrow> j < length (buf s) \<Longrightarrow> i \<noteq> j \<Longrightarrow>
         dev (node s (Buf i)) = dev (node s (Buf j)) \<Longrightarrow>
         blockno (node s (Buf i)) = blockno (node s (Buf j)) \<Longrightarrow>
         blockno (node s (Buf i)) = 0"
    using assms(6) by blast+
  show "0 < length (buf s) \<Longrightarrow> cache_map s (0, 0) \<noteq> None" by (rule assms(7))
qed


lemma key_inv_keep:
  assumes inv: "key_inv H s"
    and len: "length (buf s') = length (buf s)"
    and map: "cache_map s' = cache_map s"
    and dv: "\<And>i. dev (node s' (Buf i)) = dev (node s (Buf i))"
    and bn: "\<And>i. blockno (node s' (Buf i)) = blockno (node s (Buf i))"
    and rc: "\<And>i. Buf i \<notin> H' \<Longrightarrow> refcnt (node s' (Buf i)) = refcnt (node s (Buf i))"
    and H: "H' = H \<or> (\<exists>k b. cache_map s k = Some b \<and> H' = insert b H)"
  shows "key_inv H' s'"
proof -
  note D = key_invD [OF inv]
  have sub: "H \<subseteq> H'" using H by auto
  have new: "b \<in> H \<or> (b = Buf (length (buf s) - 1) \<and> 0 < length (buf s))" if "b \<in> H'" for b
    using H that D(2) by auto
  show ?thesis
  proof (rule key_invI; (unfold len map dv bn)?)
    fix b assume "b \<in> H'"
    with new [of b] D(1) [of b] show "in_pool s' b"
      by (auto simp: in_pool_length [OF len])
  next
    fix k b assume "cache_map s k = Some b"
    with D(2) [of k b] sub
    show "b \<in> H' \<or> (k = (0, 0) \<and> b = Buf (length (buf s) - 1) \<and> 0 < length (buf s))"
      by blast
  next
    fix i assume "i < length (buf s)"
    then show "cache_map s (dev (node s (Buf i)), blockno (node s (Buf i))) \<noteq> None"
      by (rule D(3))
  next
    fix i assume i: "i < length (buf s)" "Buf i \<notin> H'"
    with sub have "Buf i \<notin> H" by auto
    with i D(4) [of i] rc [of i]
    show "dev (node s (Buf i)) = 0 \<and> blockno (node s (Buf i)) = 0 \<and> refcnt (node s' (Buf i)) = 0"
      by simp
  next
    fix i assume i: "i < length (buf s)" "Buf i \<in> H'"
      "dev (node s (Buf i)) = 0" "blockno (node s (Buf i)) = 0"
    with new [of "Buf i"] D(5) [of i] show "i = length (buf s) - 1"
      by auto
  next
    fix i j assume "i < length (buf s)" "j < length (buf s)" "i \<noteq> j"
      "dev (node s (Buf i)) = dev (node s (Buf j))"
      "blockno (node s (Buf i)) = blockno (node s (Buf j))"
    then show "dev (node s (Buf i)) = 0 \<and> blockno (node s (Buf i)) = 0"
      by (rule D(6))
  next
    assume "0 < length (buf s)"
    then show "cache_map s (0, 0) \<noteq> None" by (rule D(7))
  qed
qed

lemma key_inv_recycle:
  assumes inv: "key_inv H s"
    and len: "length (buf s') = length (buf s)"
    and v: "v < length (buf s)"
    and miss: "cache_map s (dv, bn) = None"
    and map: "cache_map s' = (cache_map s)((dv, bn) \<mapsto> Buf v)"
    and d: "\<And>i. dev (node s' (Buf i)) = (if i = v then dv else dev (node s (Buf i)))"
    and b: "\<And>i. blockno (node s' (Buf i)) = (if i = v then bn else blockno (node s (Buf i)))"
    and rc: "\<And>i. i \<noteq> v \<Longrightarrow> refcnt (node s' (Buf i)) = refcnt (node s (Buf i))"
  shows "key_inv (insert (Buf v) H) s'"
proof -
  note D = key_invD [OF inv]
  from v have "0 < length (buf s)" by (cases "buf s") simp_all
  then have "cache_map s (0, 0) \<noteq> None" by (rule D(7))
  with miss have ne: "dv \<noteq> 0 \<or> bn \<noteq> 0"
    by auto
  have other: "dev (node s (Buf i)) \<noteq> dv \<or> blockno (node s (Buf i)) \<noteq> bn"
    if "i < length (buf s)" for i
    using D(3) [OF that] miss by auto
  show ?thesis
  proof (rule key_invI; (unfold len map)?)
    fix x assume "x \<in> insert (Buf v) H"
    with D(1) [of x] v show "in_pool s' x"
      by (auto simp: in_pool_length [OF len])
  next
    fix k x assume "((cache_map s)((dv, bn) \<mapsto> Buf v)) k = Some x"
    with D(2) [of k x]
    show "x \<in> insert (Buf v) H \<or> (k = (0, 0) \<and> x = Buf (length (buf s) - 1) \<and> 0 < length (buf s))"
      by (auto split: if_splits)
  next
    fix i assume "i < length (buf s)"
    with D(3) [of i] show "((cache_map s)((dv, bn) \<mapsto> Buf v))
        (dev (node s' (Buf i)), blockno (node s' (Buf i))) \<noteq> None"
      by (auto simp: d b)
  next
    fix i assume i: "i < length (buf s)" "Buf i \<notin> insert (Buf v) H"
    with D(4) [of i] rc [of i]
    show "dev (node s' (Buf i)) = 0 \<and> blockno (node s' (Buf i)) = 0 \<and> refcnt (node s' (Buf i)) = 0"
      by (auto simp: d b)
  next
    fix i assume i: "i < length (buf s)" "Buf i \<in> insert (Buf v) H"
      "dev (node s' (Buf i)) = 0" "blockno (node s' (Buf i)) = 0"
    with D(5) [of i] ne show "i = length (buf s) - 1"
      by (auto simp: d b split: if_splits)
  next
    fix i j assume "i < length (buf s)" "j < length (buf s)" "i \<noteq> j"
      "dev (node s' (Buf i)) = dev (node s' (Buf j))"
      "blockno (node s' (Buf i)) = blockno (node s' (Buf j))"
    with D(6) [of i j] other [of i] other [of j]
    show "dev (node s' (Buf i)) = 0 \<and> blockno (node s' (Buf i)) = 0"
      by (auto simp: d b split: if_splits)
  next
    assume "0 < length (buf s)"
    with D(7) show "((cache_map s)((dv, bn) \<mapsto> Buf v)) (0, 0) \<noteq> None"
      by auto
  qed
qed

subsection \<open>What the calls do\<close>

lemma bget_lock_Returns:
  "bget_lock p b s = Returns s' b' \<longleftrightarrow>
     lock (node s b) = None \<and> b' = b \<and> s' = upd b (\<lambda>x. x\<lparr>lock := Some p\<rparr>) s"
  by (auto simp: bget_lock_def acquiresleep_def split: option.splits)

lemma bget_lock_Sleeps:
  "bget_lock p b s = Sleeps s' b' \<longleftrightarrow> lock (node s b) \<noteq> None \<and> b' = b \<and> s' = s"
  by (auto simp: bget_lock_def acquiresleep_def split: option.splits)

lemma bget_lock_Panic [simp]: "bget_lock p b s \<noteq> Panic m s'"
  by (simp add: bget_lock_def split: option.splits)

lemma bget_hit:
  "cache_map s (dv, bn) = Some b \<Longrightarrow>
   bget p dv bn s = Some (bget_lock p b (upd b (\<lambda>x. x\<lparr>refcnt := refcnt x + 1\<rparr>) s))"
  by (simp add: bget_def hashmap_get_def)

lemma bget_miss:
  "cache_map s (dv, bn) = None \<Longrightarrow> lru_list s xs \<Longrightarrow>
   bget p dv bn s =
     Some (case lru_free s xs of
             None \<Rightarrow> Panic ''bget: no buffers'' s
           | Some v \<Rightarrow> bget_lock p (Buf v) (bget_recycle (Buf v) dv bn s))"
  by (simp add: bget_def hashmap_get_def bget_scan_lru split: option.splits)

lemma lru_free_Some:
  "lru_free s xs = Some v \<Longrightarrow> v \<in> set xs \<and> refcnt (node s (Buf v)) = 0"
  by (auto simp: lru_free_def find_Some_iff in_set_conv_nth) (metis in_set_conv_nth length_rev set_rev)

lemma lru_free_None:
  "lru_free s xs = None \<longleftrightarrow> (\<forall>i\<in>set xs. refcnt (node s (Buf i)) \<noteq> 0)"
  by (auto simp: lru_free_def find_None_iff)

lemma bget_recycle_length [simp]: "length (buf (bget_recycle b dv bn s)) = length (buf s)"
  by (simp add: bget_recycle_def Let_def)

lemma bget_recycle_links [simp]:
  "next (node (bget_recycle b dv bn s) r) = next (node s r)"
  "prev (node (bget_recycle b dv bn s) r) = prev (node s r)"
  "lock (node (bget_recycle b dv bn s) r) = lock (node s r)"
  "data (node (bget_recycle b dv bn s) r) = data (node s r)"
  by (simp_all add: bget_recycle_def Let_def)

lemma bget_recycle_fields:
  "okp s b \<Longrightarrow> dev (node (bget_recycle b dv bn s) r) = (if r = b then dv else dev (node s r))"
  "okp s b \<Longrightarrow> blockno (node (bget_recycle b dv bn s) r) = (if r = b then bn else blockno (node s r))"
  "okp s b \<Longrightarrow> refcnt (node (bget_recycle b dv bn s) r) = (if r = b then 1 else refcnt (node s r))"
  "okp s b \<Longrightarrow> valid (node (bget_recycle b dv bn s) r) = (if r = b then 0 else valid (node s r))"
  by (simp_all add: bget_recycle_def Let_def upd_ifs)

lemma bget_recycle_rest [simp]:
  "cache_map (bget_recycle b dv bn s) = (cache_map s)((dv, bn) \<mapsto> b)"
  "cache_size (bget_recycle b dv bn s) = cache_size s"
  "disk (bget_recycle b dv bn s) = disk s"
  "io_log (bget_recycle b dv bn s) = io_log s"
  by (simp_all add: bget_recycle_def Let_def hashmap_put_def)

lemma brelse_move_length [simp]: "length (buf (brelse_move b s)) = length (buf s)"
  by (simp add: brelse_move_def Let_def)

lemma brelse_move_fields [simp]:
  "dev (node (brelse_move b s) r) = dev (node s r)"
  "blockno (node (brelse_move b s) r) = blockno (node s r)"
  "refcnt (node (brelse_move b s) r) = refcnt (node s r)"
  "valid (node (brelse_move b s) r) = valid (node s r)"
  "lock (node (brelse_move b s) r) = lock (node s r)"
  "data (node (brelse_move b s) r) = data (node s r)"
  by (simp_all add: brelse_move_def Let_def)

lemma brelse_move_rest [simp]:
  "cache_map (brelse_move b s) = cache_map s"
  "cache_size (brelse_move b s) = cache_size s"
  "disk (brelse_move b s) = disk s"
  "io_log (brelse_move b s) = io_log s"
  by (simp_all add: brelse_move_def Let_def)

lemma brelse_Returns:
  "brelse p b s = Returns s' u \<longleftrightarrow>
     holdingsleep p b s \<and>
     s' = (let s2 = upd b (\<lambda>x. x\<lparr>refcnt := refcnt x - 1\<rparr>) (releasesleep b s)
           in if refcnt (node s2 b) = 0 then brelse_move b s2 else s2)"
  by (auto simp: brelse_def Let_def)

lemma virtio_disk_rw_length [simp]: "length (buf (virtio_disk_rw b w s)) = length (buf s)"
  by (simp add: virtio_disk_rw_def Let_def)

lemma virtio_disk_rw_fields [simp]:
  "dev (node (virtio_disk_rw b w s) r) = dev (node s r)"
  "blockno (node (virtio_disk_rw b w s) r) = blockno (node s r)"
  "refcnt (node (virtio_disk_rw b w s) r) = refcnt (node s r)"
  "valid (node (virtio_disk_rw b w s) r) = valid (node s r)"
  "lock (node (virtio_disk_rw b w s) r) = lock (node s r)"
  "next (node (virtio_disk_rw b w s) r) = next (node s r)"
  "prev (node (virtio_disk_rw b w s) r) = prev (node s r)"
  "cache_map (virtio_disk_rw b w s) = cache_map s"
  "cache_size (virtio_disk_rw b w s) = cache_size s"
  by (simp_all add: virtio_disk_rw_def Let_def)

lemma bread_fill_length [simp]: "length (buf (bread_fill b s)) = length (buf s)"
  by (simp add: bread_fill_def)

lemma bread_fill_fields [simp]:
  "dev (node (bread_fill b s) r) = dev (node s r)"
  "blockno (node (bread_fill b s) r) = blockno (node s r)"
  "refcnt (node (bread_fill b s) r) = refcnt (node s r)"
  "lock (node (bread_fill b s) r) = lock (node s r)"
  "next (node (bread_fill b s) r) = next (node s r)"
  "prev (node (bread_fill b s) r) = prev (node s r)"
  "cache_map (bread_fill b s) = cache_map s"
  "cache_size (bread_fill b s) = cache_size s"
  by (simp_all add: bread_fill_def)

subsection \<open>Invariants of the reachable caches\<close>

lemma list_inv_binit: "list_inv (binit s)"
  unfolding list_inv_def using binit_lru_list [of s]
  by (intro exI [of _ "rev [0..<length (buf s)]"]) auto

lemma key_inv_boot: "key_inv {} (binit (boot n dk))"
proof (rule key_invI)
  fix i assume "i < length (buf (binit (boot n dk)))"
  then have i: "i < n" by simp
  then have *: "dev (node (binit (boot n dk)) (Buf i)) = 0" "blockno (node (binit (boot n dk)) (Buf i)) = 0"
    "refcnt (node (binit (boot n dk)) (Buf i)) = 0"
    by (simp_all add: binit_data)
  from i show "cache_map (binit (boot n dk))
      (dev (node (binit (boot n dk)) (Buf i)), blockno (node (binit (boot n dk)) (Buf i))) \<noteq> None"
    by (simp add: * binit_boot_map)
  show "dev (node (binit (boot n dk)) (Buf i)) = 0 \<and> blockno (node (binit (boot n dk)) (Buf i)) = 0 \<and>
    refcnt (node (binit (boot n dk)) (Buf i)) = 0"
    by (simp add: *)
  show "dev (node (binit (boot n dk)) (Buf i)) = 0 \<and> blockno (node (binit (boot n dk)) (Buf i)) = 0"
    by (simp add: *)
next
  fix b :: bufptr assume "b \<in> {}"
  then show "in_pool (binit (boot n dk)) b" by simp
next
  fix k b assume "cache_map (binit (boot n dk)) k = Some b"
  then show "b \<in> {} \<or> (k = (0, 0) \<and> b = Buf (length (buf (binit (boot n dk))) - 1) \<and>
      0 < length (buf (binit (boot n dk))))"
    by (cases "n = 0") (simp_all add: binit_boot_map split: if_splits)
next
  fix i assume "Buf i \<in> {}"
  then show "i = length (buf (binit (boot n dk))) - 1" by simp
next
  assume "0 < length (buf (binit (boot n dk)))"
  then show "cache_map (binit (boot n dk)) (0, 0) \<noteq> None"
    by (simp add: binit_boot_map)
qed

lemma inv_frame:
  assumes li: "list_inv s" and ki: "key_inv H s"
    and len: "length (buf s') = length (buf s)"
    and nx: "\<And>r. next (node s' r) = next (node s r)"
    and pv: "\<And>r. prev (node s' r) = prev (node s r)"
    and map: "cache_map s' = cache_map s"
    and dv: "\<And>r. dev (node s' r) = dev (node s r)"
    and bn: "\<And>r. blockno (node s' r) = blockno (node s r)"
    and rc: "\<And>r. r \<notin> H \<Longrightarrow> refcnt (node s' r) = refcnt (node s r)"
  shows "list_inv s' \<and> key_inv H s'"
proof
  show "list_inv s'" using li list_inv_frame [OF len nx pv] by simp
  show "key_inv H s'"
    by (rule key_inv_keep [OF ki len map dv bn]) (simp_all add: rc)
qed

lemma inv_bget:
  assumes li: "list_inv s" and ki: "key_inv H s"
    and get: "bget p dv bn s = Some r" and r: "r = Returns s' b \<or> r = Sleeps s' b"
  shows "list_inv s' \<and> key_inv (insert b H) s'"
proof (cases "cache_map s (dv, bn)")
  case (Some c)
  define s1 where "s1 = upd c (\<lambda>x. x\<lparr>refcnt := refcnt x + 1\<rparr>) s"
  from get Some have lk: "bget_lock p c s1 = r"
    by (simp add: bget_hit s1_def)
  with r have b: "b = c" and s': "s' = s1 \<or> s' = upd c (\<lambda>x. x\<lparr>lock := Some p\<rparr>) s1"
    by (auto simp: bget_lock_Returns bget_lock_Sleeps)
  have "list_inv s' = list_inv s"
    by (rule list_inv_frame) (use s' in \<open>auto simp: s1_def\<close>)
  with li have 1: "list_inv s'" by simp
  have 2: "key_inv (insert b H) s'"
  proof (rule key_inv_keep [OF ki])
    show "insert b H = H \<or> (\<exists>k c. cache_map s k = Some c \<and> insert b H = insert c H)"
      using Some b by blast
    show "refcnt (node s' (Buf i)) = refcnt (node s (Buf i))" if "Buf i \<notin> insert b H" for i
    proof -
      from that b have "Buf i \<noteq> c" by auto
      with s' show ?thesis by (auto simp: s1_def)
    qed
  qed (use s' in \<open>auto simp: s1_def\<close>)
  from 1 2 show ?thesis ..
next
  case None
  from li obtain xs where xs: "lru_list s xs" "set xs = {..<length (buf s)}"
    by (auto simp: list_inv_def)
  from get r None xs(1) obtain v where v: "lru_free s xs = Some v"
    and lk: "bget_lock p (Buf v) (bget_recycle (Buf v) dv bn s) = r"
    by (auto simp: bget_miss split: option.splits)
  define s1 where "s1 = bget_recycle (Buf v) dv bn s"
  from lk r have b: "b = Buf v" and s': "s' = s1 \<or> s' = upd (Buf v) (\<lambda>x. x\<lparr>lock := Some p\<rparr>) s1"
    by (auto simp: bget_lock_Returns bget_lock_Sleeps s1_def)
  from lru_free_Some [OF v] xs(2) have vlt: "v < length (buf s)" by auto
  then have ok: "okp s (Buf v)" by simp
  have "list_inv s' = list_inv s"
    by (rule list_inv_frame) (use s' in \<open>auto simp: s1_def\<close>)
  with li have 1: "list_inv s'" by simp
  have 2: "key_inv (insert (Buf v) H) s'"
  proof (rule key_inv_recycle [OF ki _ vlt None])
    show "length (buf s') = length (buf s)" using s' by (auto simp: s1_def)
    show "cache_map s' = (cache_map s)((dv, bn) \<mapsto> Buf v)" using s' by (auto simp: s1_def)
    show "dev (node s' (Buf i)) = (if i = v then dv else dev (node s (Buf i)))" for i
      using s' by (auto simp: s1_def bget_recycle_fields [OF ok])
    show "blockno (node s' (Buf i)) = (if i = v then bn else blockno (node s (Buf i)))" for i
      using s' by (auto simp: s1_def bget_recycle_fields [OF ok])
    show "refcnt (node s' (Buf i)) = refcnt (node s (Buf i))" if "i \<noteq> v" for i
      using s' that by (auto simp: s1_def bget_recycle_fields [OF ok])
  qed
  from 1 2 b show ?thesis by simp
qed

lemma inv_bread:
  assumes li: "list_inv s" and ki: "key_inv H s"
    and rd: "bread p dv bn s = Some r" and r: "r = Returns s' b \<or> r = Sleeps s' b"
  shows "list_inv s' \<and> key_inv (insert b H) s'"
proof -
  from rd r obtain r1 s1 where get: "bget p dv bn s = Some r1"
    and r1: "r1 = Returns s1 b \<or> r1 = Sleeps s1 b" and s': "s' = s1 \<or> s' = bread_fill b s1"
    by (auto simp: bread_def split: option.splits outcome.splits)
  from inv_bget [OF li ki get r1] have 1: "list_inv s1" and 2: "key_inv (insert b H) s1"
    by simp_all
  have "list_inv (bread_fill b s1) \<and> key_inv (insert b H) (bread_fill b s1)"
    by (rule inv_frame [OF 1 2]) simp_all
  with 1 2 s' show ?thesis by auto
qed

lemma inv_brelse:
  assumes li: "list_inv s" and ki: "key_inv H s" and b: "b \<in> H"
    and rel: "brelse p b s = Returns s' u"
  shows "list_inv s' \<and> key_inv H s'"
proof -
  from key_invD(1) [OF ki b] obtain i where i: "b = Buf i" "i < length (buf s)"
    by (cases b) simp_all
  define s2 where "s2 = upd b (\<lambda>x. x\<lparr>refcnt := refcnt x - 1\<rparr>) (releasesleep b s)"
  from rel have s': "s' = brelse_move b s2 \<or> s' = s2"
    by (auto simp: brelse_Returns s2_def Let_def)
  have ne: "r \<noteq> b" if "r \<notin> H" for r using that b by auto
  have inv2: "list_inv s2 \<and> key_inv H s2"
    by (rule inv_frame [OF li ki]) (simp_all add: s2_def releasesleep_def ne)
  have "list_inv (brelse_move b s2)"
  proof -
    from inv2 obtain xs where xs: "lru_list s2 xs" "set xs = {..<length (buf s2)}"
      by (auto simp: list_inv_def)
    with i have mem: "i \<in> set xs" by (simp add: s2_def releasesleep_def)
    from xs(1) have "distinct xs" by (simp add: lru_list_def)
    with mem have "set (i # remove1 i xs) = set xs" by auto
    with xs(2) have "set (i # remove1 i xs) = {..<length (buf (brelse_move (Buf i) s2))}"
      by (simp only: brelse_move_length)
    with lru_list_brelse_move [OF xs(1) mem] show ?thesis
      unfolding list_inv_def i by blast
  qed
  moreover have "key_inv H (brelse_move b s2)"
    by (rule key_inv_keep [OF conjunct2 [OF inv2]]) simp_all
  ultimately show ?thesis using inv2 s' by auto
qed

lemma inv_refcnt:
  assumes "list_inv s" "key_inv H s" "b \<in> H"
  shows "list_inv (upd b (\<lambda>x. x\<lparr>refcnt := g x\<rparr>) s) \<and> key_inv H (upd b (\<lambda>x. x\<lparr>refcnt := g x\<rparr>) s)"
proof (rule inv_frame [OF assms(1,2)])
  show "refcnt (node (upd b (\<lambda>x. x\<lparr>refcnt := g x\<rparr>) s) r) = refcnt (node s r)" if "r \<notin> H" for r
  proof -
    from that assms(3) have "r \<noteq> b" by auto
    then show ?thesis by simp
  qed
qed simp_all

lemma reachable_inv: "reachable H s \<Longrightarrow> list_inv s \<and> key_inv H s"
proof (induction rule: reachable.induct)
  case (boots n dk)
  show ?case by (simp add: list_inv_binit key_inv_boot)
next
  case (gets H s p dv bn r s' b)
  then show ?case using inv_bget [of s H p dv bn r s' b] by simp
next
  case (reads H s p dv bn r s' b)
  then show ?case using inv_bread [of s H p dv bn r s' b] by simp
next
  case (writes H s b p s')
  then have s': "s' = virtio_disk_rw b 1 s"
    by (auto simp: bwrite_def split: if_splits)
  show ?case unfolding s'
    by (rule inv_frame [of s H]) (use writes.IH in simp_all)
next
  case (releases H s b p s')
  then show ?case using inv_brelse [of s H b p s'] by simp
next
  case (pins H s b s')
  then have s': "s' = upd b (\<lambda>x. x\<lparr>refcnt := refcnt x + 1\<rparr>) s"
    by (auto simp: bpin_def)
  show ?case unfolding s' using pins by (intro inv_refcnt) simp_all
next
  case (unpins H s b s')
  then have s': "s' = upd b (\<lambda>x. x\<lparr>refcnt := refcnt x - 1\<rparr>) s"
    by (auto simp: bunpin_def split: if_splits)
  show ?case unfolding s' using unpins by (intro inv_refcnt) simp_all
next
  case (resizes H s sz s')
  then have s': "s' = s\<lparr>cache_size := sz\<rparr>"
    by (auto simp: set_cache_size_def)
  show ?case unfolding s'
    by (rule inv_frame [of s H]) (use resizes.IH in simp_all)
next
  case (wakes H s b p s')
  then have s': "s' = upd b (\<lambda>x. x\<lparr>lock := Some p\<rparr>) s"
    by (auto simp: acquiresleep_def split: option.splits)
  show ?case unfolding s'
    by (rule inv_frame [of s H]) (use wakes.IH in simp_all)
next
  case (fills H s b p)
  show ?case
    by (rule inv_frame [of s H]) (use fills.IH in simp_all)
qed

subsection \<open>Caches that calls return\<close>

lemma bget_hit_Returns:
  "cache_map s (dv, bn) = Some b \<Longrightarrow> lock (node s b) = None \<Longrightarrow>
   bget p dv bn s =
     Some (Returns (upd b (\<lambda>x. x\<lparr>lock := Some p\<rparr>) (upd b (\<lambda>x. x\<lparr>refcnt := refcnt x + 1\<rparr>) s)) b)"
  by (simp add: bget_hit bget_lock_def acquiresleep_def)

lemma bget_miss_Returns:
  "cache_map s (dv, bn) = None \<Longrightarrow> lru_list s xs \<Longrightarrow> lru_free s xs = Some v \<Longrightarrow>
   lock (node s (Buf v)) = None \<Longrightarrow>
   bget p dv bn s =
     Some (Returns (upd (Buf v) (\<lambda>x. x\<lparr>lock := Some p\<rparr>) (bget_recycle (Buf v) dv bn s)) (Buf v))"
  by (simp add: bget_miss bget_lock_def acquiresleep_def)

lemma started_facts:
  "length (buf started) = 2"
  "lru_list started [Suc 0, 0]"
  "cache_map started = [(0, 0) \<mapsto> Buf (Suc 0)]"
  "dev (node started (Buf 0)) = 0" "blockno (node started (Buf 0)) = 0"
  "dev (node started (Buf (Suc 0))) = 0" "blockno (node started (Buf (Suc 0))) = 0"
  "valid (node started (Buf 0)) = 0" "valid (node started (Buf (Suc 0))) = 0"
  "refcnt (node started (Buf 0)) = 0" "refcnt (node started (Buf (Suc 0))) = 0"
  "lock (node started (Buf 0)) = None" "lock (node started (Buf (Suc 0))) = None"
  "io_log started = []"
proof -
  show "length (buf started) = 2" by (simp add: started_def)
  show "lru_list started [Suc 0, 0]"
    using binit_lru_list [of "boot 2 blank_disk"] by (simp add: started_def upt_rec)
  show "cache_map started = [(0, 0) \<mapsto> Buf (Suc 0)]"
    by (simp add: started_def binit_boot_map)
  show "refcnt (node started (Buf 0)) = 0" "refcnt (node started (Buf (Suc 0))) = 0"
    by (simp_all add: started_def binit_data)
  show "lock (node started (Buf 0)) = None" "lock (node started (Buf (Suc 0))) = None"
    by (simp_all add: started_def binit_lock)
  show "io_log started = []" by (simp add: started_def binit_rest)
  show "dev (node started (Buf 0)) = 0" "blockno (node started (Buf 0)) = 0"
    "dev (node started (Buf (Suc 0))) = 0" "blockno (node started (Buf (Suc 0))) = 0"
    "valid (node started (Buf 0)) = 0" "valid (node started (Buf (Suc 0))) = 0"
    by (simp_all add: started_def binit_data)
qed

lemma reachable_started: "reachable {} started"
  unfolding started_def by (rule reachable.boots)

lemma lru_free_Cons2 [simp]:
  "lru_free s [i, j] =
     (if refcnt (node s (Buf j)) = 0 then Some j
      else if refcnt (node s (Buf i)) = 0 then Some i else None)"
  by (simp add: lru_free_def)

lemma bget_one_held: "bget 7 1 1 started = Some (Returns one_held (Buf 0))"
  unfolding one_held_def
  by (rule bget_miss_Returns [where xs = "[Suc 0, 0]"]) (simp_all add: started_facts)

lemma one_held_facts:
  "length (buf one_held) = 2"
  "lru_list one_held [Suc 0, 0]"
  "cache_map one_held = [(0, 0) \<mapsto> Buf (Suc 0), (1, 1) \<mapsto> Buf 0]"
  "dev (node one_held (Buf 0)) = 1" "blockno (node one_held (Buf 0)) = 1"
  "dev (node one_held (Buf (Suc 0))) = 0" "blockno (node one_held (Buf (Suc 0))) = 0"
  "refcnt (node one_held (Buf 0)) = 1" "refcnt (node one_held (Buf (Suc 0))) = 0"
  "valid (node one_held (Buf 0)) = 0"
  "lock (node one_held (Buf 0)) = Some 7" "lock (node one_held (Buf (Suc 0))) = None"
  "io_log one_held = []"
proof -
  have ok: "okp started (Buf 0)" by (simp add: started_facts)
  show "length (buf one_held) = 2" by (simp add: one_held_def started_facts)
  have "lru_list one_held [Suc 0, 0] = lru_list started [Suc 0, 0]"
    by (rule lru_list_frame) (simp_all add: one_held_def)
  then show "lru_list one_held [Suc 0, 0]"
    using started_facts(2) by simp
  show "cache_map one_held = [(0, 0) \<mapsto> Buf (Suc 0), (1, 1) \<mapsto> Buf 0]"
    by (simp add: one_held_def started_facts)
  show "dev (node one_held (Buf 0)) = 1" "blockno (node one_held (Buf 0)) = 1"
    "dev (node one_held (Buf (Suc 0))) = 0" "blockno (node one_held (Buf (Suc 0))) = 0"
    "refcnt (node one_held (Buf 0)) = 1" "refcnt (node one_held (Buf (Suc 0))) = 0"
    "valid (node one_held (Buf 0)) = 0"
    by (simp_all add: one_held_def bget_recycle_fields [OF ok] started_facts)
  show "lock (node one_held (Buf 0)) = Some 7" "lock (node one_held (Buf (Suc 0))) = None"
    by (simp_all add: one_held_def upd_ifs started_facts)
  show "io_log one_held = []" by (simp add: one_held_def started_facts)
qed

lemma reachable_one_held: "reachable {Buf 0} one_held"
  using reachable.gets [OF reachable_started bget_one_held] by simp

lemma bget_both_held: "bget 7 1 2 one_held = Some (Returns both_held (Buf (Suc 0)))"
  unfolding both_held_def One_nat_def
  by (rule bget_miss_Returns [where xs = "[Suc 0, 0]"]) (simp_all add: one_held_facts)

lemma both_held_facts:
  "length (buf both_held) = 2"
  "lru_list both_held [Suc 0, 0]"
  "cache_map both_held = [(0, 0) \<mapsto> Buf (Suc 0), (1, 1) \<mapsto> Buf 0, (1, 2) \<mapsto> Buf (Suc 0)]"
  "dev (node both_held (Buf 0)) = 1" "blockno (node both_held (Buf 0)) = 1"
  "dev (node both_held (Buf (Suc 0))) = 1" "blockno (node both_held (Buf (Suc 0))) = 2"
  "refcnt (node both_held (Buf 0)) = 1" "refcnt (node both_held (Buf (Suc 0))) = 1"
  "lock (node both_held (Buf 0)) = Some 7" "lock (node both_held (Buf (Suc 0))) = Some 7"
proof -
  have ok: "okp one_held (Buf (Suc 0))" by (simp add: one_held_facts)
  show "length (buf both_held) = 2" by (simp add: both_held_def one_held_facts)
  have "lru_list both_held [Suc 0, 0] = lru_list one_held [Suc 0, 0]"
    by (rule lru_list_frame) (simp_all add: both_held_def)
  then show "lru_list both_held [Suc 0, 0]"
    using one_held_facts(2) by simp
  show "cache_map both_held = [(0, 0) \<mapsto> Buf (Suc 0), (1, 1) \<mapsto> Buf 0, (1, 2) \<mapsto> Buf (Suc 0)]"
    by (simp add: both_held_def one_held_facts)
  show "dev (node both_held (Buf 0)) = 1" "blockno (node both_held (Buf 0)) = 1"
    "dev (node both_held (Buf (Suc 0))) = 1" "blockno (node both_held (Buf (Suc 0))) = 2"
    "refcnt (node both_held (Buf 0)) = 1" "refcnt (node both_held (Buf (Suc 0))) = 1"
    by (simp_all add: both_held_def bget_recycle_fields [OF ok] one_held_facts)
  show "lock (node both_held (Buf 0)) = Some 7" "lock (node both_held (Buf (Suc 0))) = Some 7"
    by (simp_all add: both_held_def upd_ifs one_held_facts)
qed

lemma reachable_both_held: "reachable {Buf 0, Buf (Suc 0)} both_held"
  using reachable.gets [OF reachable_one_held bget_both_held] by (simp add: insert_commute)

subsection \<open>bget and the device\<close>

lemma okp_other_fields [simp]:
  "okp (cache_map_update fm s) r = okp s r"
  "okp (cache_size_update fc s) r = okp s r"
  "okp (disk_update fd s) r = okp s r"
  "okp (io_log_update fi s) r = okp s r"
  by (cases r; simp)+

lemma in_pool_other_fields [simp]:
  "in_pool (cache_map_update fm s) r = in_pool s r"
  "in_pool (cache_size_update fc s) r = in_pool s r"
  "in_pool (disk_update fd s) r = in_pool s r"
  "in_pool (io_log_update fi s) r = in_pool s r"
  by (cases r; simp)+

lemma bget_lock_io:
  "bget_lock p b s = r \<Longrightarrow> after r = Some s' \<Longrightarrow> io_log s' = io_log s \<and> disk s' = disk s"
  by (auto simp: bget_lock_def acquiresleep_def split: option.splits)

lemma bget_io:
  assumes "bget p dv bn s = Some r" "after r = Some s'"
  shows "io_log s' = io_log s \<and> disk s' = disk s"
proof (cases "hashmap_get (cache_map s) dv bn")
  case (Some c)
  with assms show ?thesis
    using bget_lock_io [of p c "upd c (\<lambda>x. x\<lparr>refcnt := refcnt x + 1\<rparr>) s" r s']
    by (simp add: bget_def)
next
  case None
  with assms obtain c where "bget_lock p c (bget_recycle c dv bn s) = r"
    by (auto simp: bget_def split: option.splits)
  from bget_lock_io [OF this assms(2)] show ?thesis by simp
qed

lemma bget_Returns_map:
  assumes "bget p dv bn s = Some (Returns s' b)"
  shows "cache_map s' (dv, bn) = Some b"
proof (cases "hashmap_get (cache_map s) dv bn")
  case (Some c)
  with assms show ?thesis
    by (auto simp: bget_def bget_lock_Returns hashmap_get_def)
next
  case None
  with assms show ?thesis
    by (auto simp: bget_def bget_lock_Returns split: option.splits)
qed

lemma bread_fill_valid: "okp s b \<Longrightarrow> valid (node (bread_fill b s) b) \<noteq> 0"
  by (simp add: bread_fill_def virtio_disk_rw_def Let_def)

lemma bread_fill_io:
  "io_log (bread_fill b s) =
     (if valid (node s b) = 0 then io_log s @ [Disk_read (dev (node s b)) (blockno (node s b))]
      else io_log s)"
  by (simp add: bread_fill_def virtio_disk_rw_def Let_def)

lemma bread_Returns:
  "bread p dv bn s = Some (Returns s' b) \<longleftrightarrow>
     (\<exists>s1. bget p dv bn s = Some (Returns s1 b) \<and> s' = bread_fill b s1)"
  by (auto simp: bread_def split: option.splits outcome.splits)

lemma brelse_io [simp]:
  "brelse p b s = Returns s' u \<Longrightarrow> io_log s' = io_log s"
  by (auto simp: brelse_Returns Let_def releasesleep_def)

lemma bread_again:
  assumes "reachable H s" and rd: "bread p dv bn s = Some (Returns s2 b)"
    and rel: "brelse p b s2 = Returns s3 ()"
  shows "\<exists>s4. bread q dv bn s3 = Some (Returns s4 b) \<and> io_log s4 = io_log s3 \<and> valid (node s4 b) \<noteq> 0"
proof -
  from rd obtain s1 where get: "bget p dv bn s = Some (Returns s1 b)" and s2: "s2 = bread_fill b s1"
    by (auto simp: bread_Returns)
  from reachable_inv [OF assms(1)] inv_bget [OF _ _ get] have "key_inv (insert b H) s1"
    by simp
  from key_invD(1) [OF this] have pool: "in_pool s1 b" by simp
  then have ok: "okp s1 b" by (rule in_pool_okp)
  have m2: "cache_map s2 (dv, bn) = Some b"
    using bget_Returns_map [OF get] by (simp add: s2)
  have v2: "valid (node s2 b) \<noteq> 0"
    using bread_fill_valid [OF ok] by (simp add: s2)
  from ok have ok2: "okp s2 b" by (cases b) (simp_all add: s2)
  define t where "t = upd b (\<lambda>x. x\<lparr>refcnt := refcnt x - 1\<rparr>) (releasesleep b s2)"
  from rel have s3: "s3 = brelse_move b t \<or> s3 = t"
    by (auto simp: brelse_Returns Let_def t_def)
  have okr: "okp (releasesleep b s2) b" using ok2 by (cases b) (simp_all add: releasesleep_def)
  have lt: "lock (node t b) = None"
    using ok2 by (simp add: t_def releasesleep_def)
  have m3: "cache_map s3 (dv, bn) = Some b" using s3 m2 by (auto simp: t_def releasesleep_def)
  have v3: "valid (node s3 b) \<noteq> 0" using s3 v2 by (auto simp: t_def releasesleep_def)
  have l3: "lock (node s3 b) = None" using s3 lt by auto
  define s4 where "s4 = upd b (\<lambda>x. x\<lparr>lock := Some q\<rparr>) (upd b (\<lambda>x. x\<lparr>refcnt := refcnt x + 1\<rparr>) s3)"
  have get3: "bget q dv bn s3 = Some (Returns s4 b)"
    unfolding s4_def by (rule bget_hit_Returns [OF m3 l3])
  have v4: "valid (node s4 b) \<noteq> 0" using v3 by (simp add: s4_def)
  then have "bread_fill b s4 = s4" by (simp add: bread_fill_def)
  with get3 have "bread q dv bn s3 = Some (Returns s4 b)"
    by (simp add: bread_Returns)
  moreover have "io_log s4 = io_log s3" by (simp add: s4_def)
  ultimately show ?thesis using v4 by blast
qed

subsection \<open>The choice of the buffer to recycle\<close>

lemma find_append_case:
  "find P (xs @ ys) = (case find P xs of None \<Rightarrow> find P ys | Some x \<Rightarrow> Some x)"
  by (induction xs) auto

lemma lru_free_split:
  assumes "refcnt (node s (Buf v)) = 0" and "\<forall>u\<in>set vs. refcnt (node s (Buf u)) \<noteq> 0"
  shows "lru_free s (us @ v # vs) = Some v"
proof -
  from assms(2) have "find (\<lambda>i. refcnt (node s (Buf i)) = 0) (rev vs) = None"
    by (simp add: find_None_iff)
  with assms(1) show ?thesis
    by (simp add: lru_free_def find_append_case)
qed

lemma given_bget_lock [simp]: "given (bget_lock p b s) = Some b"
  by (simp add: bget_lock_def split: option.splits)

lemma lru_free_front:
  assumes "distinct (i # ys)" and "j \<in> set ys" and "refcnt (node s (Buf j)) = 0"
  shows "lru_free s (i # ys) \<noteq> Some i"
proof -
  from assms(2,3) obtain k where k: "find (\<lambda>i. refcnt (node s (Buf i)) = 0) (rev ys) = Some k"
    by (cases "find (\<lambda>i. refcnt (node s (Buf i)) = 0) (rev ys)") (auto simp: find_None_iff)
  then have "k \<in> set ys"
    by (auto simp: find_Some_iff in_set_conv_nth) (metis in_set_conv_nth length_rev set_rev)
  with assms(1) have "k \<noteq> i" by auto
  with k show ?thesis by (simp add: lru_free_def find_append_case)
qed

lemma brelse_last_reference:
  assumes re: "reachable H s" and xs: "lru_list s xs" and i: "Buf i \<in> H"
    and hold: "holdingsleep q (Buf i) s" and one: "refcnt (node s (Buf i)) = 1"
  shows "\<exists>s'. brelse q (Buf i) s = Returns s' () \<and> refcnt (node s' (Buf i)) = 0 \<and>
     lru_list s' (i # remove1 i xs) \<and>
     (\<forall>j dv' bn' p'. j < length (buf s') \<and> j \<noteq> i \<and> refcnt (node s' (Buf j)) = 0 \<and>
        hashmap_get (cache_map s') dv' bn' = None \<longrightarrow>
        map_option given (bget p' dv' bn' s') \<noteq> Some (Some (Buf i)))"
proof -
  from reachable_inv [OF re] have li: "list_inv s" and ki: "key_inv H s" by simp_all
  from key_invD(1) [OF ki i] have ilt: "i < length (buf s)" by simp
  from li obtain ys where ys: "lru_list s ys" "set ys = {..<length (buf s)}"
    by (auto simp: list_inv_def)
  from lru_list_unique [OF xs ys(1)] ys(2) have full: "set xs = {..<length (buf s)}" by simp
  with ilt have mem: "i \<in> set xs" by simp
  from xs have dist: "distinct xs" by (simp add: lru_list_def)
  define t where "t = upd (Buf i) (\<lambda>x. x\<lparr>refcnt := refcnt x - 1\<rparr>) (releasesleep (Buf i) s)"
  have rt: "refcnt (node t (Buf i)) = 0"
    using ilt one by (simp add: t_def releasesleep_def)
  define s' where "s' = brelse_move (Buf i) t"
  have rel: "brelse q (Buf i) s = Returns s' ()"
    using hold rt by (simp add: brelse_Returns Let_def t_def [symmetric] s'_def)
  have "lru_list t xs = lru_list s xs"
    by (rule lru_list_frame) (simp_all add: t_def releasesleep_def)
  with xs have "lru_list t xs" by simp
  from lru_list_brelse_move [OF this mem] have l': "lru_list s' (i # remove1 i xs)"
    by (simp add: s'_def)
  have r': "refcnt (node s' (Buf i)) = 0" using rt by (simp add: s'_def)
  have len: "length (buf s') = length (buf s)" by (simp add: s'_def t_def releasesleep_def)
  have last: "map_option given (bget p' dv' bn' s') \<noteq> Some (Some (Buf i))"
    if "j < length (buf s')" "j \<noteq> i" "refcnt (node s' (Buf j)) = 0"
      "hashmap_get (cache_map s') dv' bn' = None" for j dv' bn' p'
  proof -
    from that(1,2) full dist have "j \<in> set (remove1 i xs)" by (simp add: len)
    moreover from dist have "distinct (i # remove1 i xs)" by simp
    ultimately have "lru_free s' (i # remove1 i xs) \<noteq> Some i"
      using that(3) by (intro lru_free_front)
    with bget_miss [OF _ l', of dv' bn' p'] that(4) show ?thesis
      by (auto simp: hashmap_get_def split: option.splits)
  qed
  from rel r' l' last show ?thesis by blast
qed

subsection \<open>Concrete caches\<close>

lemma bget_zero_held: "bget 7 0 0 started = Some (Returns zero_held (Buf (Suc 0)))"
  unfolding zero_held_def One_nat_def
  by (rule bget_hit_Returns) (simp_all add: started_facts)

lemma reachable_zero_held: "reachable {Buf (Suc 0)} zero_held"
  using reachable.gets [OF reachable_started bget_zero_held] by simp

lemma zero_held_facts:
  "length (buf zero_held) = 2"
  "dev (node zero_held (Buf 0)) = 0" "blockno (node zero_held (Buf 0)) = 0"
  "dev (node zero_held (Buf (Suc 0))) = 0" "blockno (node zero_held (Buf (Suc 0))) = 0"
  "refcnt (node zero_held (Buf 0)) = 0" "refcnt (node zero_held (Buf (Suc 0))) = 1"
  by (simp_all add: zero_held_def started_facts upd_ifs)

lemma bread_one_read: "bread 7 1 1 started = Some (Returns one_read (Buf 0))"
  by (simp add: bread_Returns bget_one_held one_read_def)

lemma one_read_facts:
  "length (buf one_read) = 2"
  "valid (node one_read (Buf 0)) \<noteq> 0"
  "io_log one_read = [Disk_read 1 1]"
  "lock (node one_read (Buf 0)) = Some 7"
  "refcnt (node one_read (Buf 0)) = 1"
  by (simp_all add: one_read_def one_held_facts bread_fill_valid bread_fill_io)

lemma brelse_one_released: "brelse 7 (Buf 0) one_read = Returns one_released ()"
  by (simp add: brelse_Returns Let_def holdingsleep_def one_read_facts one_released_def
      releasesleep_def)

section \<open>The claims\<close>

text \<open>
  C1. Every \<^verbatim>\<open>bget(dev, blockno)\<close> that returns gives a buffer of that device and
  block number, with one more reference. The code does not do this on the path that
  finds the key in the hash map: \<^verbatim>\<open>bget\<close> never takes a key out of the map, so the key
  of a buffer that was recycled since still leads to it. After \<open>stale_trace\<close> (blocks
  1, 2 and 3 of device 1 read and released in turn, with two buffers) the call
  \<^verbatim>\<open>bget(1, 1)\<close> returns buffer 0, which holds block 3, valid, with reference count 1;
  and \<^verbatim>\<open>bread(1, 1)\<close> returns it without a transfer.
\<close>

theorem bget_stale_hit:
  "run stale_trace started \<noteq> None \<and>
   result (bget 7 1 1 (the (run stale_trace started))) = Some (Buf 0, 1, 3, 1, 1) \<and>
   map_option io_log (run stale_trace started) = Some [Disk_read 1 1, Disk_read 1 2, Disk_read 1 3] \<and>
   map_option io_log (Option.bind (run stale_trace started) (exec (Bread 7 1 1))) =
     Some [Disk_read 1 1, Disk_read 1 2, Disk_read 1 3]"
  by code_simp

text \<open>
  C2. When \<^verbatim>\<open>bget\<close> recycles a buffer, it puts the new key into the hash map and
  takes the buffer's old key out. The code does the first only. After the first four
  calls of \<open>stale_trace\<close> buffer 0 holds block 1 of device 1 and the map leads from
  (1, 1) to it; \<^verbatim>\<open>bget(1, 3)\<close> then recycles buffer 0, and afterwards both (1, 3) and
  (1, 1) lead to buffer 0, which holds block 3.
\<close>

theorem bget_keeps_stale_mapping:
  "map_option (\<lambda>s. (cache_map s (1, 1), dev (node s (Buf 0)), blockno (node s (Buf 0))))
     (run (take 4 stale_trace) started) = Some (Some (Buf 0), 1, 1) \<and>
   map_option (\<lambda>s. (cache_map s (1, 3), cache_map s (1, 1), dev (node s (Buf 0)), blockno (node s (Buf 0))))
     (run (take 4 stale_trace @ [Bget 7 1 3]) started) = Some (Some (Buf 0), Some (Buf 0), 1, 3)"
  by code_simp

text \<open>
  C3. In every cache the kernel can reach (\<^verbatim>\<open>binit\<close> at boot, then calls of
  \<^verbatim>\<open>bget\<close>, \<^verbatim>\<open>bread\<close>, \<^verbatim>\<open>bwrite\<close>, \<^verbatim>\<open>brelse\<close>, \<^verbatim>\<open>bpin\<close>,
  \<^verbatim>\<open>bunpin\<close> and \<^verbatim>\<open>set_cache_size\<close> in any order, on the buffers that \<^verbatim>\<open>bget\<close>
  gave out), two different buffers of the pool with the same device and block number
  do not both have a reference.
\<close>

theorem one_live_buffer_per_block:
  assumes "reachable H s" and "i < length (buf s)" and "j < length (buf s)" and "i \<noteq> j"
    and "dev (node s (Buf i)) = dev (node s (Buf j))"
    and "blockno (node s (Buf i)) = blockno (node s (Buf j))"
  shows "refcnt (node s (Buf i)) = 0 \<or> refcnt (node s (Buf j)) = 0"
proof (rule ccontr)
  assume "\<not> ?thesis"
  then have ri: "refcnt (node s (Buf i)) \<noteq> 0" and rj: "refcnt (node s (Buf j)) \<noteq> 0"
    by simp_all
  from reachable_inv [OF assms(1)] have ki: "key_inv H s" ..
  note D = key_invD [OF ki]
  from D(6) [OF assms(2,3,4,5,6)] have zi: "dev (node s (Buf i)) = 0" "blockno (node s (Buf i)) = 0"
    by simp_all
  with assms(5,6) have zj: "dev (node s (Buf j)) = 0" "blockno (node s (Buf j)) = 0"
    by simp_all
  from D(4) [OF assms(2)] ri have "Buf i \<in> H" by blast
  from D(5) [OF assms(2) this zi] have i: "i = length (buf s) - 1" .
  from D(4) [OF assms(3)] rj have "Buf j \<in> H" by blast
  from D(5) [OF assms(3) this zj] have "j = length (buf s) - 1" .
  with i assms(4) show False by simp
qed

theorem one_live_buffer_per_block_witness:
  "reachable {Buf 1} zero_held \<and> 0 < length (buf zero_held) \<and> 1 < length (buf zero_held) \<and>
   (0::nat) \<noteq> 1 \<and>
   dev (node zero_held (Buf 0)) = dev (node zero_held (Buf 1)) \<and>
   blockno (node zero_held (Buf 0)) = blockno (node zero_held (Buf 1)) \<and>
   refcnt (node zero_held (Buf 1)) = 1 \<and>
   (refcnt (node zero_held (Buf 0)) = 0 \<or> refcnt (node zero_held (Buf 1)) = 0)"
proof -
  have 1: "reachable {Buf 1} zero_held" using reachable_zero_held by simp
  have 2: "0 < length (buf zero_held)" and 3: "1 < length (buf zero_held)" and 4: "(0::nat) \<noteq> 1"
    and 5: "dev (node zero_held (Buf 0)) = dev (node zero_held (Buf 1))"
    and 6: "blockno (node zero_held (Buf 0)) = blockno (node zero_held (Buf 1))"
    and 7: "refcnt (node zero_held (Buf 1)) = 1"
    by (simp_all add: zero_held_facts)
  from one_live_buffer_per_block [OF 1 2 3 4 5 6] 1 2 3 4 5 6 7 show ?thesis
    by (intro conjI)
qed

text \<open>
  C4, as the code has it. After \<^verbatim>\<open>binit\<close> at boot with \<open>n\<close> buffers the hash map is
  not empty: the loop puts every buffer under its key, which is (0, 0) for each, so the
  map leads from (0, 0) to the last buffer (and is empty only without buffers). The
  Recency List holds every buffer of the pool once: it is \<open>n - 1, ..., 0\<close>.
\<close>

theorem binit_index_and_list:
  "cache_map (binit (boot n dk)) = (if n = 0 then Map.empty else [(0, 0) \<mapsto> Buf (n - 1)]) \<and>
   lru_list (binit (boot n dk)) (rev [0..<n]) \<and>
   lru_order (binit (boot n dk)) = rev [0..<n] \<and>
   distinct (lru_order (binit (boot n dk))) \<and>
   set (lru_order (binit (boot n dk))) = {..<n}"
proof -
  have l: "lru_list (binit (boot n dk)) (rev [0..<n])"
    using binit_lru_list [of "boot n dk"] by simp
  from lru_order_eq [OF l] have o: "lru_order (binit (boot n dk)) = rev [0..<n]" .
  have "set (rev [0..<n]) = {..<n}" by auto
  with l o show ?thesis by (simp add: binit_boot_map)
qed

text \<open>
  The claim as it was stated fails for a pool of two buffers: the key (0, 0) leads to
  buffer 1.
\<close>

theorem binit_index_counterexample:
  "cache_map (binit (boot 2 blank_disk)) (0, 0) = Some (Buf 1) \<and>
   cache_map (binit (boot 2 blank_disk)) \<noteq> Map.empty"
proof -
  have "cache_map (binit (boot 2 blank_disk)) (0, 0) = Some (Buf 1)"
    by (simp add: binit_boot_map)
  then show ?thesis by auto
qed

text \<open>
  C5, as the code has it. In a reachable cache with Recency List \<open>xs\<close>: when the key
  is not in the hash map, \<^verbatim>\<open>bget\<close> chooses the buffer without reference that is
  nearest to the least recently used end of the list (every buffer after \<open>v\<close> has a
  reference); and a \<^verbatim>\<open>brelse\<close> that drops the last reference moves the buffer to the
  most recently used end, the others keeping their order, so that the next \<^verbatim>\<open>bget\<close>
  that must recycle does not choose it as long as another buffer has no reference.
\<close>

theorem lru_eviction_order:
  assumes "reachable H s" and "lru_list s xs"
  shows "(hashmap_get (cache_map s) dv bn = None \<and> xs = us @ v # vs \<and>
          refcnt (node s (Buf v)) = 0 \<and> (\<forall>u\<in>set vs. refcnt (node s (Buf u)) \<noteq> 0) \<longrightarrow>
            map_option given (bget p dv bn s) = Some (Some (Buf v))) \<and>
         (Buf i \<in> H \<and> holdingsleep q (Buf i) s \<and> refcnt (node s (Buf i)) = 1 \<longrightarrow>
            (\<exists>s'. brelse q (Buf i) s = Returns s' () \<and> refcnt (node s' (Buf i)) = 0 \<and>
               lru_list s' (i # remove1 i xs) \<and>
               (\<forall>j dv' bn' p'. j < length (buf s') \<and> j \<noteq> i \<and> refcnt (node s' (Buf j)) = 0 \<and>
                  hashmap_get (cache_map s') dv' bn' = None \<longrightarrow>
                  map_option given (bget p' dv' bn' s') \<noteq> Some (Some (Buf i)))))"
proof (intro conjI impI)
  assume a: "hashmap_get (cache_map s) dv bn = None \<and> xs = us @ v # vs \<and>
          refcnt (node s (Buf v)) = 0 \<and> (\<forall>u\<in>set vs. refcnt (node s (Buf u)) \<noteq> 0)"
  then have "lru_free s xs = Some v" by (simp add: lru_free_split)
  with bget_miss [OF _ assms(2), of dv bn p] a
  show "map_option given (bget p dv bn s) = Some (Some (Buf v))"
    by (simp add: hashmap_get_def)
next
  assume "Buf i \<in> H \<and> holdingsleep q (Buf i) s \<and> refcnt (node s (Buf i)) = 1"
  then show "\<exists>s'. brelse q (Buf i) s = Returns s' () \<and> refcnt (node s' (Buf i)) = 0 \<and>
               lru_list s' (i # remove1 i xs) \<and>
               (\<forall>j dv' bn' p'. j < length (buf s') \<and> j \<noteq> i \<and> refcnt (node s' (Buf j)) = 0 \<and>
                  hashmap_get (cache_map s') dv' bn' = None \<longrightarrow>
                  map_option given (bget p' dv' bn' s') \<noteq> Some (Some (Buf i)))"
    using brelse_last_reference [OF assms] by blast
qed

theorem lru_eviction_order_witness:
  "reachable {Buf 0} one_held \<and> lru_list one_held [1, 0] \<and>
   hashmap_get (cache_map one_held) 1 2 = None \<and> [1, 0] = [] @ 1 # [0::nat] \<and>
   refcnt (node one_held (Buf 1)) = 0 \<and> refcnt (node one_held (Buf 0)) \<noteq> 0 \<and>
   map_option given (bget 8 1 2 one_held) = Some (Some (Buf 1)) \<and>
   holdingsleep 7 (Buf 0) one_held \<and> refcnt (node one_held (Buf 0)) = 1 \<and>
   (\<exists>s'. brelse 7 (Buf 0) one_held = Returns s' () \<and> refcnt (node s' (Buf 0)) = 0 \<and>
      lru_list s' [0, 1] \<and> length (buf s') = 2 \<and> refcnt (node s' (Buf 1)) = 0 \<and>
      hashmap_get (cache_map s') 1 2 = None \<and>
      map_option given (bget 8 1 2 s') \<noteq> Some (Some (Buf 0)))"
proof -
  have 1: "reachable {Buf 0} one_held" by (rule reachable_one_held)
  have 2: "lru_list one_held [1, 0]" by (simp add: one_held_facts)
  note th = lru_eviction_order [OF 1 2, of 1 2 "[]" 1 "[0]" 8 0 7]
  have 3: "hashmap_get (cache_map one_held) 1 2 = None"
    by (simp add: hashmap_get_def one_held_facts)
  have 4: "refcnt (node one_held (Buf 1)) = 0" "refcnt (node one_held (Buf 0)) \<noteq> 0"
    "refcnt (node one_held (Buf 0)) = 1"
    by (simp_all add: one_held_facts)
  have 5: "holdingsleep 7 (Buf 0) one_held"
    by (simp add: holdingsleep_def one_held_facts)
  from th 3 4 have 6: "map_option given (bget 8 1 2 one_held) = Some (Some (Buf 1))"
    by simp
  from th 4 5 obtain s' where s': "brelse 7 (Buf 0) one_held = Returns s' ()"
    "refcnt (node s' (Buf 0)) = 0" "lru_list s' [0, 1]"
    and last: "\<And>j dv' bn' p'. j < length (buf s') \<and> j \<noteq> 0 \<and> refcnt (node s' (Buf j)) = 0 \<and>
        hashmap_get (cache_map s') dv' bn' = None \<Longrightarrow>
        map_option given (bget p' dv' bn' s') \<noteq> Some (Some (Buf 0))"
    by auto
  from s'(1) have eq: "s' = brelse_move (Buf 0)
      (upd (Buf 0) (\<lambda>x. x\<lparr>refcnt := refcnt x - 1\<rparr>) (releasesleep (Buf 0) one_held))"
    by (auto simp: brelse_Returns Let_def one_held_facts releasesleep_def)
  have 7: "length (buf s') = 2" "refcnt (node s' (Buf 1)) = 0"
    "hashmap_get (cache_map s') 1 2 = None"
    by (simp_all add: eq releasesleep_def one_held_facts hashmap_get_def)
  with last [of 1 1 2 8] have 8: "map_option given (bget 8 1 2 s') \<noteq> Some (Some (Buf 0))"
    by simp
  from s' 7 8 have "\<exists>s'. brelse 7 (Buf 0) one_held = Returns s' () \<and> refcnt (node s' (Buf 0)) = 0 \<and>
      lru_list s' [0, 1] \<and> length (buf s') = 2 \<and> refcnt (node s' (Buf 1)) = 0 \<and>
      hashmap_get (cache_map s') 1 2 = None \<and>
      map_option given (bget 8 1 2 s') \<noteq> Some (Some (Buf 0))"
    by blast
  with 1 2 3 4 5 6 show ?thesis by simp
qed

text \<open>
  The claim as it was stated, that the buffer chosen is always the one released least
  recently, fails when a count reaches zero in \<^verbatim>\<open>bunpin\<close>, which does not move the
  buffer. After \<open>lru_trace\<close> buffer 1 was released by the fourth call and has had no
  reference since; buffer 0 was released by the fifth call and lost its last reference
  in the sixth; both are without reference, and \<^verbatim>\<open>bget(1, 3)\<close> recycles buffer 0.
\<close>

theorem lru_eviction_order_counterexample:
  "run lru_trace started \<noteq> None \<and>
   map_option (\<lambda>s. (refcnt (node s (Buf 0)), refcnt (node s (Buf 1)))) (run (take 4 lru_trace) started)
     = Some (2, 0) \<and>
   map_option (\<lambda>s. (refcnt (node s (Buf 0)), refcnt (node s (Buf 1)))) (run (take 5 lru_trace) started)
     = Some (1, 0) \<and>
   map_option (\<lambda>s. (refcnt (node s (Buf 0)), refcnt (node s (Buf 1)))) (run lru_trace started)
     = Some (0, 0) \<and>
   release_time 0 lru_trace (Buf 1) = 4 \<and> release_time 0 lru_trace (Buf 0) = 5 \<and>
   hashmap_get (cache_map (the (run lru_trace started))) 1 3 = None \<and>
   result (bget 7 1 3 (the (run lru_trace started))) = Some (Buf 0, 1, 3, 1, 0) \<and>
   \<not> least_recently_released lru_trace (the (run lru_trace started)) (Buf 0)"
  by code_simp

text \<open>
  C6. In a reachable cache, when the key is not in the hash map and every buffer of the
  pool has a reference, \<^verbatim>\<open>bget\<close> panics with "bget: no buffers": it does not return
  a buffer, does not sleep, and the cache at the panic is the cache of the call.
\<close>

theorem bget_no_buffers_panics:
  assumes "reachable H s" and "hashmap_get (cache_map s) dv bn = None"
    and "\<forall>i<length (buf s). refcnt (node s (Buf i)) \<noteq> 0"
  shows "bget p dv bn s = Some (Panic ''bget: no buffers'' s)"
proof -
  from reachable_inv [OF assms(1)] obtain xs where xs: "lru_list s xs" "set xs = {..<length (buf s)}"
    by (auto simp: list_inv_def)
  from assms(3) xs(2) have "lru_free s xs = None"
    by (simp add: lru_free_None)
  with bget_miss [OF _ xs(1), of dv bn p] assms(2) show ?thesis
    by (simp add: hashmap_get_def)
qed

theorem bget_no_buffers_panics_witness:
  "reachable {Buf 0, Buf 1} both_held \<and> hashmap_get (cache_map both_held) 1 3 = None \<and>
   length (buf both_held) = 2 \<and> refcnt (node both_held (Buf 0)) \<noteq> 0 \<and>
   refcnt (node both_held (Buf 1)) \<noteq> 0 \<and>
   bget 8 1 3 both_held = Some (Panic ''bget: no buffers'' both_held)"
proof -
  have 1: "reachable {Buf 0, Buf 1} both_held" using reachable_both_held by simp
  have 2: "hashmap_get (cache_map both_held) 1 3 = None"
    by (simp add: hashmap_get_def both_held_facts)
  have 4: "length (buf both_held) = 2" "refcnt (node both_held (Buf 0)) \<noteq> 0"
    "refcnt (node both_held (Buf 1)) \<noteq> 0"
    by (simp_all add: both_held_facts)
  then have 3: "\<forall>i<length (buf both_held). refcnt (node both_held (Buf i)) \<noteq> 0"
    by (simp add: less_Suc_eq numeral_2_eq_2)
  from bget_no_buffers_panics [OF 1 2 3, of 8] 1 2 4 show ?thesis
    by (intro conjI)
qed

text \<open>
  C7. In a reachable cache, when \<^verbatim>\<open>bget\<close> returns a buffer, \<^verbatim>\<open>bread\<close> returns that
  buffer; \<^verbatim>\<open>bget\<close> makes no transfer, and \<^verbatim>\<open>bread\<close> makes exactly one read, of the
  buffer's block, when the buffer came back invalid, and none when it came back valid;
  the buffer is valid at the return. And a \<^verbatim>\<open>bread\<close> of the same key right after the
  \<^verbatim>\<open>brelse\<close> that follows a \<^verbatim>\<open>bread\<close> returns the same buffer, valid, without a
  transfer.
\<close>

theorem bread_reads_when_invalid:
  assumes "reachable H s"
  shows "(bget p dv bn s = Some (Returns s1 b) \<longrightarrow>
            bread p dv bn s = Some (Returns (bread_fill b s1) b) \<and>
            io_log s1 = io_log s \<and>
            io_log (bread_fill b s1) =
              (if valid (node s1 b) = 0
               then io_log s @ [Disk_read (dev (node s1 b)) (blockno (node s1 b))]
               else io_log s) \<and>
            valid (node (bread_fill b s1) b) \<noteq> 0) \<and>
         (bread p dv bn s = Some (Returns s2 b) \<and> brelse p b s2 = Returns s3 () \<longrightarrow>
            (\<exists>s4. bread q dv bn s3 = Some (Returns s4 b) \<and> io_log s4 = io_log s3 \<and>
               valid (node s4 b) \<noteq> 0))"
proof (intro conjI impI)
  assume get: "bget p dv bn s = Some (Returns s1 b)"
  then show "bread p dv bn s = Some (Returns (bread_fill b s1) b)"
    by (simp add: bread_Returns)
  from bget_io [OF get] show io: "io_log s1 = io_log s" by simp
  show "io_log (bread_fill b s1) =
      (if valid (node s1 b) = 0
       then io_log s @ [Disk_read (dev (node s1 b)) (blockno (node s1 b))]
       else io_log s)"
    by (simp add: bread_fill_io io)
  from reachable_inv [OF assms] inv_bget [OF _ _ get] have "key_inv (insert b H) s1"
    by simp
  from key_invD(1) [OF this] have "in_pool s1 b" by simp
  then show "valid (node (bread_fill b s1) b) \<noteq> 0"
    by (intro bread_fill_valid in_pool_okp)
next
  assume "bread p dv bn s = Some (Returns s2 b) \<and> brelse p b s2 = Returns s3 ()"
  then show "\<exists>s4. bread q dv bn s3 = Some (Returns s4 b) \<and> io_log s4 = io_log s3 \<and>
      valid (node s4 b) \<noteq> 0"
    using bread_again [OF assms] by blast
qed

theorem bread_reads_when_invalid_witness:
  "reachable {} started \<and> bget 7 1 1 started = Some (Returns one_held (Buf 0)) \<and>
   bread 7 1 1 started = Some (Returns (bread_fill (Buf 0) one_held) (Buf 0)) \<and>
   valid (node one_held (Buf 0)) = 0 \<and> io_log started = [] \<and>
   io_log (bread_fill (Buf 0) one_held) = [Disk_read 1 1] \<and>
   valid (node (bread_fill (Buf 0) one_held) (Buf 0)) \<noteq> 0 \<and>
   brelse 7 (Buf 0) (bread_fill (Buf 0) one_held) = Returns one_released () \<and>
   (\<exists>s4. bread 8 1 1 one_released = Some (Returns s4 (Buf 0)) \<and> io_log s4 = io_log one_released \<and>
      valid (node s4 (Buf 0)) \<noteq> 0)"
proof -
  note th = bread_reads_when_invalid [OF reachable_started,
      of 7 1 1 one_held "Buf 0" "bread_fill (Buf 0) one_held" one_released 8]
  have g: "bget 7 1 1 started = Some (Returns one_held (Buf 0))" by (rule bget_one_held)
  have r: "bread 7 1 1 started = Some (Returns (bread_fill (Buf 0) one_held) (Buf 0))"
    using bread_one_read by (simp add: one_read_def)
  have b: "brelse 7 (Buf 0) (bread_fill (Buf 0) one_held) = Returns one_released ()"
    using brelse_one_released by (simp add: one_read_def)
  have v: "valid (node one_held (Buf 0)) = 0" "io_log started = []"
    by (simp_all add: one_held_facts started_facts)
  from th g have "io_log (bread_fill (Buf 0) one_held) = [Disk_read 1 1]"
    "valid (node (bread_fill (Buf 0) one_held) (Buf 0)) \<noteq> 0"
    by (simp_all add: v one_held_facts)
  moreover from th r b
  have "\<exists>s4. bread 8 1 1 one_released = Some (Returns s4 (Buf 0)) \<and> io_log s4 = io_log one_released \<and>
      valid (node s4 (Buf 0)) \<noteq> 0"
    by blast
  ultimately show ?thesis using reachable_started g r b v by (intro conjI)
qed

text \<open>
  C8. \<^verbatim>\<open>bwrite\<close> and \<^verbatim>\<open>brelse\<close> panic exactly when the caller does not hold the
  buffer's sleep-lock, and \<^verbatim>\<open>bunpin\<close> panics exactly when the reference count is
  zero; the cache at the panic is the cache of the call, so nothing was written to the
  device and no count or link was changed.
\<close>

theorem protocol_violation_panics:
  "panic_state (bwrite p b s) = (if holdingsleep p b s then None else Some s) \<and>
   panic_state (brelse p b s) = (if holdingsleep p b s then None else Some s) \<and>
   panic_state (bunpin b s) = (if refcnt (node s b) = 0 then Some s else None)"
  by (simp add: bwrite_def brelse_def bunpin_def Let_def)

text \<open>
  C9. For a buffer whose sleep-lock the caller holds, \<^verbatim>\<open>bwrite\<close> returns and leaves
  every buffer (its count, links, validity, device, block number and lock), the list
  head, the hash map and the recorded size as they were; the caller still holds the
  lock. Its effect is one write of the buffer's payload to the buffer's block of the
  device.
\<close>

theorem bwrite_frame:
  "holdingsleep p b s \<Longrightarrow>
   \<exists>s'. bwrite p b s = Returns s' () \<and> buf s' = buf s \<and> head s' = head s \<and>
     cache_map s' = cache_map s \<and> cache_size s' = cache_size s \<and> holdingsleep p b s' \<and>
     disk s' = (disk s)((dev (node s b), blockno (node s b)) := data (node s b)) \<and>
     io_log s' = io_log s @ [Disk_write (dev (node s b)) (blockno (node s b))]"
  by (simp add: bwrite_def virtio_disk_rw_def Let_def holdingsleep_def del: head_node)

theorem bwrite_frame_witness:
  "holdingsleep 7 (Buf 0) one_held \<and>
   (\<exists>s'. bwrite 7 (Buf 0) one_held = Returns s' () \<and> buf s' = buf one_held \<and>
     head s' = head one_held \<and> cache_map s' = cache_map one_held \<and>
     cache_size s' = cache_size one_held \<and> holdingsleep 7 (Buf 0) s' \<and>
     disk s' = (disk one_held)((dev (node one_held (Buf 0)), blockno (node one_held (Buf 0))) :=
       data (node one_held (Buf 0))) \<and>
     io_log s' = io_log one_held @
       [Disk_write (dev (node one_held (Buf 0))) (blockno (node one_held (Buf 0)))])"
proof -
  have h: "holdingsleep 7 (Buf 0) one_held"
    by (simp add: holdingsleep_def one_held_facts)
  from h bwrite_frame [OF h] show ?thesis by (rule conjI)
qed

text \<open>
  C10. For every argument, \<^verbatim>\<open>set_cache_size\<close> returns and changes the recorded size
  only: the array of buffers (so the capacity of the pool and every field of every
  buffer), the list head (so the Recency List), the hash map and the device are as they
  were.
\<close>

theorem set_cache_size_frame:
  "\<exists>s'. set_cache_size sz s = Returns s' () \<and> cache_size s' = sz \<and> buf s' = buf s \<and>
     head s' = head s \<and> cache_map s' = cache_map s \<and> disk s' = disk s \<and>
     io_log s' = io_log s"
  by (simp add: set_cache_size_def del: head_node)

end
